theory Spec2Isabelle
  imports Main "HOL-Library.Word"
begin

unbundle bit_operations_syntax

section \<open>Machine integers\<close>

type_synonym u8 = "8 word"
type_synonym u16 = "16 word"
type_synonym u32 = "32 word"
type_synonym u64 = "64 word"

section \<open>Candidate sets: \<open>RelocationIDImpl<N>\<close> (include/REL/ID.h)\<close>

text \<open>
  The member \<open>std::array<std::uint64_t, N> m_ids\<close> is a list of \<open>N\<close> words; the template
  parameter \<open>N\<close> is the length of the list. A runtime index is a \<open>std::size_t\<close>; no
  arithmetic is done on it, so it is a natural number.
\<close>

text \<open>\<open>resolve_fallback\<close>: the range-for over \<open>m_ids\<close> returning the first non-zero id.\<close>

fun resolve_fallback :: "u64 list \<Rightarrow> u64" where
  "resolve_fallback [] = 0"
| "resolve_fallback (id_val # rest) = (if id_val \<noteq> 0 then id_val else resolve_fallback rest)"

text \<open>\<open>resolve_fallback_for_runtime\<close>: only reached from \<open>resolve_id\<close> with an index below \<open>N\<close>.\<close>

definition resolve_fallback_for_runtime :: "u64 list \<Rightarrow> nat \<Rightarrow> u64" where
  "resolve_fallback_for_runtime m_ids a_runtime_index =
     (if a_runtime_index > 0 \<and> m_ids ! 0 \<noteq> 0 then m_ids ! 0
      else resolve_fallback m_ids)"

definition resolve_id :: "u64 list \<Rightarrow> nat \<Rightarrow> u64" where
  "resolve_id m_ids a_runtime_index =
     (if a_runtime_index \<ge> length m_ids then resolve_fallback m_ids
      else let candidate_id = m_ids ! a_runtime_index in
        if candidate_id = 0 then resolve_fallback_for_runtime m_ids a_runtime_index
        else candidate_id)"

definition raw_id :: "u64 list \<Rightarrow> nat \<Rightarrow> u64" where
  "raw_id m_ids a_index = (if a_index < length m_ids then m_ids ! a_index else 0)"

text \<open>
  The two-argument constructor (\<open>requires(N == 3 || N == 4)\<close>): \<open>m_ids\<close> starts
  value-initialised, then slots 0 and 1 are assigned, and slots 2 and 3 are set to zero
  under \<open>if constexpr\<close>.
\<close>

definition RelocationIDImpl2 :: "nat \<Rightarrow> u64 \<Rightarrow> u64 \<Rightarrow> u64 list" where
  "RelocationIDImpl2 N a_primary a_secondary =
     (let m0 = replicate N 0;
          m1 = m0[0 := a_primary];
          m2 = m1[1 := a_secondary];
          m3 = (if N \<ge> 3 then m2[2 := 0] else m2);
          m4 = (if N \<ge> 4 then m3[3 := 0] else m3)
      in m4)"

text \<open>
  The resolution algorithm in the words of the specification (section 4.7): the global
  fallback is slot 0 if non-zero, else the first non-zero slot in order, else zero; an
  in-range non-zero slot resolves to itself, everything else to the global fallback.
\<close>

definition spec_global_fallback :: "u64 list \<Rightarrow> u64" where
  "spec_global_fallback c =
     (if c \<noteq> [] \<and> hd c \<noteq> 0 then hd c
      else case List.find (\<lambda>x. x \<noteq> 0) c of Some x \<Rightarrow> x | None \<Rightarrow> 0)"

definition spec_resolve :: "u64 list \<Rightarrow> nat \<Rightarrow> u64" where
  "spec_resolve c i =
     (if i < length c then (if c ! i \<noteq> 0 then c ! i else spec_global_fallback c)
      else spec_global_fallback c)"

section \<open>Errors\<close>

text \<open>
  \<open>REX::FAIL\<close> ends the calling operation; each of its call sites is one constructor
  below, named after the error taxonomy of the specification where it has a name there.
  Three constructors stand for what the machine does where C++ leaves the behaviour
  undefined (a division by zero, a read outside mapped memory, a store past the end of
  the header object),
  and \<open>StreamFailure\<close> is the \<open>std::ios_base::failure\<close> (a \<open>std::system_error\<close>) that
  the stream throws, since \<open>STREAM\<close>'s constructor enables exceptions for \<open>badbit\<close>,
  \<open>failbit\<close> and \<open>eofbit\<close>.
\<close>

datatype error =
    FileNotOpenable
  | UnsupportedFormat
  | VersionMismatch
  | BlacklistedDatabase
  | SharedRegionCreationFailed
  | EmptyDatabase
  | MalformedStream
  | IdNotFound u64
  | NoLibraryLoaded
  | HashFailed
  | StreamFailure
  | DivideByZero
  | AccessViolation
  | BufferOverrun

section \<open>Record store and address resolver (include/REL/IDDB.h, src/REL/IDDB.cpp)\<close>

datatype Format = CSV | None_fmt | V0 | V1 | V2 | V5

fun to_underlying :: "Format \<Rightarrow> int" where
  "to_underlying CSV = -100"
| "to_underlying None_fmt = 2147483647"
| "to_underlying V0 = 0"
| "to_underlying V1 = 1"
| "to_underlying V2 = 2"
| "to_underlying V5 = 5"

record MAPPING =
  id_of :: u64
  offset_of :: u64

text \<open>
  \<open>m_v5\<close> is a \<open>std::span<std::uint32_t>\<close>: a pointer into the mapped file and a
  size. \<open>mapped\<close> lists the 32-bit words that the mapping holds from that pointer on
  (the file's words after the header and whatever the mapping holds behind them),
  \<open>extent\<close> is the span's \<open>size()\<close>.
\<close>

record SPAN_V5 =
  mapped :: "u32 list"
  extent :: nat

record IDDB =
  m_format :: Format
  m_v0 :: "MAPPING list"
  m_v5 :: SPAN_V5

text \<open>
  \<open>std::lower_bound\<close> over \<open>[first, first + count)\<close> with the comparison
  \<open>a_lhs.id < a_rhs.id\<close>: halve the range, keep the upper half when the middle element
  compares less than the key.
\<close>

function lower_bound :: "MAPPING list \<Rightarrow> nat \<Rightarrow> nat \<Rightarrow> u64 \<Rightarrow> nat" where
  "lower_bound v first count a_id =
     (if count > 0 then
        let step = count div 2; it = first + step in
        if id_of (v ! it) < a_id then lower_bound v (it + 1) (count - (step + 1)) a_id
        else lower_bound v first step a_id
      else first)"
  by pat_completeness auto
termination
  by (relation "measure (\<lambda>(v, first, count, a_id). count)") auto

declare lower_bound.simps [simp del]

text \<open>
  \<open>m_v5[a_id]\<close>: \<open>std::span::operator[]\<close> does not compare the index with the size. The
  address is the span's pointer plus four times the index, computed in 64 bits, so the
  index counts modulo \<open>2^62\<close>. The read returns what the mapping holds there, and
  faults outside the mapping. (\<open>mapped\<close> starts at the span's pointer: a wrapped address
  that falls in the file's header, just ahead of the pointer, is not in it.)
\<close>

definition subscript_v5 :: "SPAN_V5 \<Rightarrow> nat \<Rightarrow> error + u32" where
  "subscript_v5 s i =
     (let j = i mod 2 ^ 62 in
      if j < length (mapped s) then Inr (mapped s ! j) else Inl AccessViolation)"

definition offset :: "IDDB \<Rightarrow> u64 \<Rightarrow> error + u64" where
  "offset db a_id =
     (if to_underlying (m_format db) < 5 then
        if m_v0 db = [] then Inl NoLibraryLoaded
        else
          let it = lower_bound (m_v0 db) 0 (length (m_v0 db)) a_id in
          if it = length (m_v0 db) then Inl (IdNotFound a_id)
          else Inr (offset_of (m_v0 db ! it))
      else
        if extent (m_v5 db) = 0 then Inl NoLibraryLoaded
        else
          (case subscript_v5 (m_v5 db) (unat a_id) of
             Inl e \<Rightarrow> Inl e
           | Inr w \<Rightarrow>
               let offset_v = (ucast w :: u64) in
               if offset_v = 0 then Inl (IdNotFound a_id) else Inr offset_v))"

text \<open>The invariant of the sorted formats: ids strictly ascending (sorted and unique).\<close>

definition ascending :: "MAPPING list \<Rightarrow> bool" where
  "ascending v = sorted_wrt (\<lambda>a b. id_of a < id_of b) v"

section \<open>Binary stream (\<open>IDDB::STREAM\<close>)\<close>

text \<open>
  The stream is the list of bytes not yet read. \<open>readin\<close> copies \<open>sizeof(T)\<close> bytes into
  the value (little-endian on the target); a short read sets \<open>failbit\<close> and \<open>eofbit\<close>
  and so throws.
\<close>

type_synonym STREAM = "u8 list"

fun le_nat :: "u8 list \<Rightarrow> nat" where
  "le_nat [] = 0"
| "le_nat (b # bs) = unat b + 256 * le_nat bs"

definition readout :: "nat \<Rightarrow> STREAM \<Rightarrow> error + ('a::len word \<times> STREAM)" where
  "readout n s =
     (if length s < n then Inl StreamFailure
      else Inr (word_of_nat (le_nat (take n s)), drop n s))"

definition readout_u8 :: "STREAM \<Rightarrow> error + (u8 \<times> STREAM)" where
  "readout_u8 = readout 1"

definition readout_u16 :: "STREAM \<Rightarrow> error + (u16 \<times> STREAM)" where
  "readout_u16 = readout 2"

definition readout_u32 :: "STREAM \<Rightarrow> error + (u32 \<times> STREAM)" where
  "readout_u32 = readout 4"

definition readout_u64 :: "STREAM \<Rightarrow> error + (u64 \<times> STREAM)" where
  "readout_u64 = readout 8"

definition map_read :: "('a \<Rightarrow> 'b) \<Rightarrow> error + ('a \<times> STREAM) \<Rightarrow> error + ('b \<times> STREAM)" where
  "map_read f r = (case r of Inl e \<Rightarrow> Inl e | Inr (x, s) \<Rightarrow> Inr (f x, s))"

section \<open>Delta codec (\<open>IDDB::unpack_file\<close>)\<close>

text \<open>The first \<open>switch\<close>, on \<open>lo\<close>; narrower values are zero-extended to 64 bits.\<close>

definition switch_id :: "u8 \<Rightarrow> u64 \<Rightarrow> STREAM \<Rightarrow> error + (u64 \<times> STREAM)" where
  "switch_id lo prevID s =
     (if lo = 0 then readout_u64 s
      else if lo = 1 then Inr (prevID + 1, s)
      else if lo = 2 then map_read (\<lambda>d. prevID + ucast d) (readout_u8 s)
      else if lo = 3 then map_read (\<lambda>d. prevID - ucast d) (readout_u8 s)
      else if lo = 4 then map_read (\<lambda>d. prevID + ucast d) (readout_u16 s)
      else if lo = 5 then map_read (\<lambda>d. prevID - ucast d) (readout_u16 s)
      else if lo = 6 then map_read ucast (readout_u16 s)
      else if lo = 7 then map_read ucast (readout_u32 s)
      else Inl MalformedStream)"

text \<open>The second \<open>switch\<close>, on \<open>hi & 7\<close>, over \<open>tmp\<close>.\<close>

definition switch_offset :: "u8 \<Rightarrow> u64 \<Rightarrow> STREAM \<Rightarrow> error + (u64 \<times> STREAM)" where
  "switch_offset hi7 tmp s =
     (if hi7 = 0 then readout_u64 s
      else if hi7 = 1 then Inr (tmp + 1, s)
      else if hi7 = 2 then map_read (\<lambda>d. tmp + ucast d) (readout_u8 s)
      else if hi7 = 3 then map_read (\<lambda>d. tmp - ucast d) (readout_u8 s)
      else if hi7 = 4 then map_read (\<lambda>d. tmp + ucast d) (readout_u16 s)
      else if hi7 = 5 then map_read (\<lambda>d. tmp - ucast d) (readout_u16 s)
      else if hi7 = 6 then map_read ucast (readout_u16 s)
      else if hi7 = 7 then map_read ucast (readout_u32 s)
      else Inl MalformedStream)"

text \<open>
  One iteration of the loop. \<open>prevOffset / pointer_size\<close> with a zero pointer size is a
  division by zero, which traps.
\<close>

definition unpack_mapping :: "u64 \<Rightarrow> u64 \<times> u64 \<Rightarrow> STREAM \<Rightarrow> error + (MAPPING \<times> STREAM)" where
  "unpack_mapping pointer_size prev s =
     (case prev of (prevID, prevOffset) \<Rightarrow>
      (case readout_u8 s of Inl e \<Rightarrow> Inl e | Inr (type, s1) \<Rightarrow>
        let lo = type AND 0xF; hi = drop_bit 4 type in
        (case switch_id lo prevID s1 of Inl e \<Rightarrow> Inl e | Inr (id_v, s2) \<Rightarrow>
          if hi AND 8 \<noteq> 0 \<and> pointer_size = 0 then Inl DivideByZero
          else
            let tmp = (if hi AND 8 \<noteq> 0 then prevOffset div pointer_size else prevOffset) in
            (case switch_offset (hi AND 7) tmp s2 of Inl e \<Rightarrow> Inl e | Inr (offset_v, s3) \<Rightarrow>
              let offset_v = (if hi AND 8 \<noteq> 0 then offset_v * pointer_size else offset_v) in
              Inr (\<lparr>id_of = id_v, offset_of = offset_v\<rparr>, s3)))))"

text \<open>
  The loop over the \<open>address_count\<close> slots of \<open>m_v0\<close>: \<open>prevID\<close> and \<open>prevOffset\<close> become
  the pair just stored.
\<close>

fun unpack_loop :: "nat \<Rightarrow> u64 \<Rightarrow> u64 \<times> u64 \<Rightarrow> STREAM \<Rightarrow> error + (MAPPING list \<times> STREAM)" where
  "unpack_loop 0 pointer_size prev s = Inr ([], s)"
| "unpack_loop (Suc n) pointer_size prev s =
     (case unpack_mapping pointer_size prev s of Inl e \<Rightarrow> Inl e | Inr (m, s') \<Rightarrow>
      (case unpack_loop n pointer_size (id_of m, offset_of m) s' of Inl e \<Rightarrow> Inl e
       | Inr (ms, s'') \<Rightarrow> Inr (m # ms, s'')))"

section \<open>Headers (\<open>HEADER_V2\<close>, \<open>HEADER_V5\<close>)\<close>

text \<open>\<open>REL::Version\<close>: four 16-bit components, compared component by component.\<close>

type_synonym Version = "u16 list"

record HEADER_V2 =
  m_name :: "u8 list"
  m_gameVersion :: "u32 list"
  m_pointerSize :: "32 word"
  m_addressCount :: "32 word"

definition read_gameVersion :: "STREAM \<Rightarrow> error + (u32 list \<times> STREAM)" where
  "read_gameVersion s =
     (case readout_u32 s of Inl e \<Rightarrow> Inl e | Inr (v0, s0) \<Rightarrow>
      (case readout_u32 s0 of Inl e \<Rightarrow> Inl e | Inr (v1, s1) \<Rightarrow>
       (case readout_u32 s1 of Inl e \<Rightarrow> Inl e | Inr (v2, s2) \<Rightarrow>
        (case readout_u32 s2 of Inl e \<Rightarrow> Inl e | Inr (v3, s3) \<Rightarrow>
           Inr ([v0, v1, v2, v3], s3)))))"

text \<open>
  The object that the constructor fills. Its members lie in declaration order without
  padding: \<open>m_name\<close> in bytes 0 to 63, \<open>m_gameVersion\<close> in bytes 64 to 79,
  \<open>m_pointerSize\<close> in bytes 80 to 83 and \<open>m_addressCount\<close> in bytes 84 to 87; all
  start as zero.
\<close>

definition header_v2_object :: "u8 list" where
  "header_v2_object = replicate 88 0"

text \<open>\<open>_stream.read\<close> of \<open>n\<close> bytes, and the bytes stored at an offset of the object.\<close>

definition readin_bytes :: "nat \<Rightarrow> STREAM \<Rightarrow> error + (u8 list \<times> STREAM)" where
  "readin_bytes n s = (if length s < n then Inl StreamFailure else Inr (take n s, drop n s))"

definition write_bytes :: "nat \<Rightarrow> u8 list \<Rightarrow> u8 list \<Rightarrow> u8 list" where
  "write_bytes off bs obj = take off obj @ bs @ drop (off + length bs) obj"

definition field_u32 :: "u8 list \<Rightarrow> nat \<Rightarrow> u32" where
  "field_u32 obj off = word_of_nat (le_nat (take 4 (drop off obj)))"

text \<open>
  The name loop, \<open>a_in.readin(m_name[i])\<close> for \<open>i < nameLen\<close>, with \<open>k\<close> iterations
  to go. Nothing bounds \<open>i\<close> by the 64 bytes of \<open>m_name\<close>: from \<open>i = 64\<close> on the byte
  is stored in the members behind \<open>m_name\<close>. A store past the last member leaves the
  object; what it hits there belongs to the caller's frame, and the model stops.
\<close>

fun name_loop :: "nat \<Rightarrow> nat \<Rightarrow> u8 list \<Rightarrow> STREAM \<Rightarrow> error + (u8 list \<times> STREAM)" where
  "name_loop 0 i obj s = Inr (obj, s)"
| "name_loop (Suc k) i obj s =
     (case s of [] \<Rightarrow> Inl StreamFailure
      | b # s' \<Rightarrow>
          if i < length obj then name_loop k (Suc i) (obj[i := b]) s'
          else Inl BufferOverrun)"

text \<open>The members as the accessors read them from the object.\<close>

definition header_of :: "u8 list \<Rightarrow> HEADER_V2" where
  "header_of obj =
     \<lparr>m_name = take 64 obj,
      m_gameVersion = [field_u32 obj 64, field_u32 obj 68, field_u32 obj 72, field_u32 obj 76],
      m_pointerSize = field_u32 obj 80,
      m_addressCount = field_u32 obj 84\<rparr>"

text \<open>
  The constructor: \<open>readin(m_gameVersion)\<close>, the name length, the name loop, the
  terminator \<open>m_name[nameLen] = 0\<close> (stored like the name bytes, wherever the index
  falls), \<open>readin(m_pointerSize)\<close>, \<open>readin(m_addressCount)\<close>.
\<close>

definition HEADER_V2 :: "STREAM \<Rightarrow> error + (HEADER_V2 \<times> STREAM)" where
  "HEADER_V2 a_in =
     (case readin_bytes 16 a_in of Inl e \<Rightarrow> Inl e | Inr (gv, s1) \<Rightarrow>
      let obj1 = write_bytes 64 gv header_v2_object in
      (case readout_u32 s1 of Inl e \<Rightarrow> Inl e | Inr (nameLen, s2) \<Rightarrow>
       (case name_loop (unat nameLen) 0 obj1 s2 of Inl e \<Rightarrow> Inl e | Inr (obj2, s3) \<Rightarrow>
        if length obj2 \<le> unat nameLen then Inl BufferOverrun
        else
          let obj3 = obj2[unat nameLen := 0] in
          (case readin_bytes 4 s3 of Inl e \<Rightarrow> Inl e | Inr (ps, s4) \<Rightarrow>
           (case readin_bytes 4 s4 of Inl e \<Rightarrow> Inl e | Inr (ac, s5) \<Rightarrow>
              Inr (header_of (write_bytes 84 ac (write_bytes 80 ps obj3)), s5))))))"

text \<open>The accessors cast the signed 32-bit fields to 64 bits, with sign extension.\<close>

definition address_count :: "HEADER_V2 \<Rightarrow> nat" where
  "address_count h = unat (scast (m_addressCount h) :: u64)"

definition pointer_size :: "HEADER_V2 \<Rightarrow> u64" where
  "pointer_size h = scast (m_pointerSize h)"

text \<open>\<open>game_version()\<close>: each 32-bit component cast to \<open>std::uint16_t\<close>.\<close>

definition game_version :: "u32 list \<Rightarrow> Version" where
  "game_version gv = map ucast gv"

definition unpack_file :: "STREAM \<Rightarrow> HEADER_V2 \<Rightarrow> error + MAPPING list" where
  "unpack_file a_stream a_header =
     (case unpack_loop (address_count a_header) (pointer_size a_header) (0, 0) a_stream of
        Inl e \<Rightarrow> Inl e | Inr (ms, s) \<Rightarrow> Inr ms)"

record HEADER_V5 =
  v5_gameVersion :: "u32 list"
  v5_name :: "u8 list"
  v5_pointerSize :: "32 word"
  v5_dataFormat :: "32 word"
  v5_offsetCount :: "32 word"

definition HEADER_V5 :: "STREAM \<Rightarrow> error + (HEADER_V5 \<times> STREAM)" where
  "HEADER_V5 a_in =
     (case read_gameVersion a_in of Inl e \<Rightarrow> Inl e | Inr (gv, s1) \<Rightarrow>
      if length s1 < 64 then Inl StreamFailure
      else
       (case readout_u32 (drop 64 s1) of Inl e \<Rightarrow> Inl e | Inr (ps, s3) \<Rightarrow>
        (case readout_u32 s3 of Inl e \<Rightarrow> Inl e | Inr (df, s4) \<Rightarrow>
         (case readout_u32 s4 of Inl e \<Rightarrow> Inl e | Inr (oc, s5) \<Rightarrow>
            Inr (\<lparr>v5_gameVersion = gv, v5_name = take 64 s1, v5_pointerSize = ps,
                  v5_dataFormat = df, v5_offsetCount = oc\<rparr>, s5)))))"

definition offset_count :: "HEADER_V5 \<Rightarrow> nat" where
  "offset_count h = unat (scast (v5_offsetCount h) :: u64)"

section \<open>Load paths (\<open>load_v2\<close>, \<open>load_v5\<close>, \<open>validate_file\<close>)\<close>

datatype Loader = None_loader | SKSE | F4SE | SFSE | OBSE

definition g_blacklistMap :: "Loader \<Rightarrow> (Version \<times> string) list" where
  "g_blacklistMap l =
     (if l = F4SE then
        [([1, 10, 980, 0],
          ''2AD60B95388F1B6E77A6F86F17BEB51D043CF95A341E91ECB2E911A393E45FE8156D585D2562F7B14434483D6E6652E2373B91589013507CABAE596C26A343F1''),
         ([1, 11, 159, 0],
          ''686D40387F638ED75AD43BB76CA14170576F1A30E91144F280987D13A3012B1CA6A4E04E6BE7A5B99E46C50332C49BE40C3D9448038E17D3D31C40E72A90AE26'')]
      else [])"

text \<open>
  What the load paths obtain from their collaborators: the live version
  (\<open>ModuleBase::version()\<close>), the loader found by the constructor, whether
  \<open>m_mmap.create\<close> succeeds and whether it made this instance the owner, the records an
  attached region already holds, the words of a mapped v5 file behind its header, and
  the result of \<open>REX::SHA512\<close> over the mapping.
\<close>

record ENV =
  version :: Version
  loader :: Loader
  mmap_create :: bool
  is_owner :: bool
  shared_region :: "MAPPING list"
  mapped_words :: "u32 list"
  sha512 :: "string option"

fun validate_checks :: "Version \<Rightarrow> string option \<Rightarrow> (Version \<times> string) list \<Rightarrow> error + unit" where
  "validate_checks ver sha [] = Inr ()"
| "validate_checks ver sha (check # rest) =
     (if ver = fst check then
        (case sha of None \<Rightarrow> Inl HashFailed
         | Some h \<Rightarrow> if h = snd check then Inl BlacklistedDatabase
                     else validate_checks ver sha rest)
      else validate_checks ver sha rest)"

definition validate_file :: "ENV \<Rightarrow> error + unit" where
  "validate_file env = validate_checks (version env) (sha512 env) (g_blacklistMap (loader env))"

text \<open>
  \<open>catch (const std::system_error&)\<close>: the stream's failure becomes
  the \<open>REX::FAIL\<close> of the handler (failed to open the file); a \<open>REX::FAIL\<close> inside the
  \<open>try\<close> block is final.
\<close>

definition catch_system_error :: "error + 'a \<Rightarrow> error + 'a" where
  "catch_system_error r = (case r of Inl StreamFailure \<Rightarrow> Inl FileNotOpenable | _ \<Rightarrow> r)"

text \<open>
  \<open>std::sort\<close> by \<open>id\<close>. It leaves the order of records with equal ids open; the model
  keeps their order, and agrees with every outcome of \<open>std::sort\<close> when the ids differ
  pairwise.
\<close>

definition sort_by_id :: "MAPPING list \<Rightarrow> MAPPING list" where
  "sort_by_id ms = sort_key id_of ms"

definition load_v2 :: "ENV \<Rightarrow> STREAM \<Rightarrow> error + MAPPING list" where
  "load_v2 env a_stream = catch_system_error
     (case HEADER_V2 a_stream of Inl e \<Rightarrow> Inl e | Inr (header, s) \<Rightarrow>
        if game_version (m_gameVersion header) \<noteq> version env then Inl VersionMismatch
        else if \<not> mmap_create env then Inl SharedRegionCreationFailed
        else (case validate_file env of Inl e \<Rightarrow> Inl e | Inr u \<Rightarrow>
          if is_owner env then
            (case unpack_file s header of Inl e \<Rightarrow> Inl e | Inr ms \<Rightarrow> Inr (sort_by_id ms))
          else Inr (take (address_count header) (shared_region env))))"

definition load_v5 :: "ENV \<Rightarrow> STREAM \<Rightarrow> error + SPAN_V5" where
  "load_v5 env a_stream = catch_system_error
     (case HEADER_V5 a_stream of Inl e \<Rightarrow> Inl e | Inr (header, s) \<Rightarrow>
        if game_version (v5_gameVersion header) \<noteq> version env then Inl VersionMismatch
        else if \<not> mmap_create env then Inl SharedRegionCreationFailed
        else (case validate_file env of Inl e \<Rightarrow> Inl e | Inr u \<Rightarrow>
          Inr \<lparr>mapped = mapped_words env, extent = offset_count header\<rparr>))"

section \<open>Textual ingestion (\<open>load_csv\<close>)\<close>

text \<open>
  \<open>std::getline\<close> on the characters not yet read; \<open>exceptions\<close> tells whether the
  stream's exception mask holds \<open>failbit\<close> and \<open>eofbit\<close>. Reaching the end of the
  stream sets \<open>eofbit\<close>, and extracting nothing sets \<open>failbit\<close>: with the mask set both
  throw; without it the first still yields the last line and the second makes the
  stream test false (\<open>None\<close>).
\<close>

definition getline :: "bool \<Rightarrow> string \<Rightarrow> error + (string \<times> string) option" where
  "getline exceptions s =
     (if s = [] then (if exceptions then Inl StreamFailure else Inr None)
      else if CHR 0x0A \<in> set s then
        Inr (Some (takeWhile (\<lambda>c. c \<noteq> CHR 0x0A) s, tl (dropWhile (\<lambda>c. c \<noteq> CHR 0x0A) s)))
      else (if exceptions then Inl StreamFailure else Inr (Some (s, []))))"

text \<open>
  \<open>std::stoull(str)\<close>, base 10: skip white space, take an optional sign, then the
  longest run of decimal digits; no digit is \<open>std::invalid_argument\<close>, a value above
  \<open>ULLONG_MAX\<close> is \<open>std::out_of_range\<close>, a minus sign negates modulo \<open>2^64\<close>, and
  whatever follows the digits is ignored.
\<close>

definition isspace_c :: "char \<Rightarrow> bool" where
  "isspace_c c = (c \<in> set [CHR 0x20, CHR 0x09, CHR 0x0A, CHR 0x0B, CHR 0x0C, CHR 0x0D])"

definition isdigit_c :: "char \<Rightarrow> bool" where
  "isdigit_c c = (48 \<le> (of_char c :: nat) \<and> (of_char c :: nat) \<le> 57)"

definition digit_val :: "char \<Rightarrow> nat" where
  "digit_val c = of_char c - 48"

datatype stoull_error = invalid_argument | out_of_range

definition stoull :: "string \<Rightarrow> stoull_error + u64" where
  "stoull str =
     (let s1 = dropWhile isspace_c str;
          neg = (s1 \<noteq> [] \<and> hd s1 = CHR ''-'');
          s2 = (if s1 \<noteq> [] \<and> (hd s1 = CHR ''+'' \<or> hd s1 = CHR ''-'') then tl s1 else s1);
          ds = takeWhile isdigit_c s2
      in if ds = [] then Inl invalid_argument
         else
           let n = foldl (\<lambda>a c. 10 * a + digit_val c) 0 ds in
           if 2 ^ 64 \<le> n then Inl out_of_range
           else Inr (if neg then - of_nat n else of_nat n))"

text \<open>
  The two \<open>erase\<close> calls around \<open>find_first_not_of\<close> and \<open>find_last_not_of\<close>, over
  space, tab, carriage return and line feed.
\<close>

definition trim_ws :: "string \<Rightarrow> string" where
  "trim_ws s =
     (let ws = (\<lambda>c. c \<in> set [CHR 0x20, CHR 0x09, CHR 0x0D, CHR 0x0A]) in
      rev (dropWhile ws (rev (dropWhile ws s))))"

text \<open>The local variables of \<open>load_csv\<close>.\<close>

record csv_state =
  mappings :: "MAPPING list"
  lineNumber :: nat
  validEntries :: nat
  invalidEntries :: nat
  duplicateEntries :: nat
  expectedEntries :: nat
  versionString :: string

definition csv_begin :: csv_state where
  "csv_begin = \<lparr>mappings = [], lineNumber = 0, validEntries = 0, invalidEntries = 0,
     duplicateEntries = 0, expectedEntries = 0, versionString = []\<rparr>"

text \<open>\<open>it->offset = offset\<close> at the first record that \<open>std::find_if\<close> finds with the id.\<close>

fun set_first_offset :: "u64 \<Rightarrow> u64 \<Rightarrow> MAPPING list \<Rightarrow> MAPPING list" where
  "set_first_offset i v [] = []"
| "set_first_offset i v (m # ms) =
     (if id_of m = i then m\<lparr>offset_of := v\<rparr> # ms else m # set_first_offset i v ms)"

text \<open>Step 2, the metadata line: the count and the version label are kept and logged.\<close>

definition csv_metadata :: "csv_state \<Rightarrow> string \<Rightarrow> csv_state" where
  "csv_metadata st0 line =
     (let st = st0\<lparr>lineNumber := lineNumber st0 + 1\<rparr> in
      if CHR '','' \<in> set line then
        let countStr = trim_ws (takeWhile (\<lambda>c. c \<noteq> CHR '','') line);
            verStr = trim_ws (tl (dropWhile (\<lambda>c. c \<noteq> CHR '','') line))
        in (case stoull countStr of Inl e \<Rightarrow> st
            | Inr n \<Rightarrow> st\<lparr>expectedEntries := unat n, versionString := verStr\<rparr>)
      else st)"

text \<open>Step 3, the body of the \<open>while\<close> loop for one data line.\<close>

definition csv_line :: "csv_state \<Rightarrow> string \<Rightarrow> csv_state" where
  "csv_line st0 line =
     (let st = st0\<lparr>lineNumber := lineNumber st0 + 1\<rparr> in
      if line = [] \<or> hd line = CHR ''#'' then st
      else if CHR '','' \<notin> set line then st\<lparr>invalidEntries := invalidEntries st + 1\<rparr>
      else
        let idStr = trim_ws (takeWhile (\<lambda>c. c \<noteq> CHR '','') line);
            offsetStr = trim_ws (tl (dropWhile (\<lambda>c. c \<noteq> CHR '','') line))
        in if idStr = [] \<or> offsetStr = [] then st\<lparr>invalidEntries := invalidEntries st + 1\<rparr>
           else
             (case stoull idStr of Inl e \<Rightarrow> st\<lparr>invalidEntries := invalidEntries st + 1\<rparr>
              | Inr id_v \<Rightarrow>
               (case stoull offsetStr of Inl e \<Rightarrow> st\<lparr>invalidEntries := invalidEntries st + 1\<rparr>
                | Inr offset_v \<Rightarrow>
                   if id_v \<in> set (map id_of (mappings st)) then
                     st\<lparr>duplicateEntries := duplicateEntries st + 1,
                        mappings := set_first_offset id_v offset_v (mappings st)\<rparr>
                   else
                     st\<lparr>mappings := mappings st @ [\<lparr>id_of = id_v, offset_of = offset_v\<rparr>],
                        validEntries := validEntries st + 1\<rparr>)))"

text \<open>
  The \<open>while (std::getline(...))\<close> loop. The result is the state of the local variables
  when the loop is left, and whether it was left by the stream's exception.
\<close>

function csv_lines :: "bool \<Rightarrow> csv_state \<Rightarrow> string \<Rightarrow> csv_state \<times> bool" where
  "csv_lines exceptions st s =
     (case getline exceptions s of
        Inl e \<Rightarrow> (st, True)
      | Inr None \<Rightarrow> (st, False)
      | Inr (Some (line, s')) \<Rightarrow> csv_lines exceptions (csv_line st line) s')"
  by pat_completeness auto
termination
proof (relation "measure (\<lambda>(exceptions, st, s). length s)")
  show "wf (measure (\<lambda>(exceptions :: bool, st :: csv_state, s :: string). length s))"
    by (rule wf_measure)
next
  fix exceptions :: bool and st :: csv_state and s :: string and x2 x2a xa y
  assume g: "getline exceptions s = Inr x2" and "x2 = Some x2a" and "(xa, y) = x2a"
  then have a: "getline exceptions s = Inr (Some (xa, y))" by simp
  then have ne: "s \<noteq> []" by (auto simp: getline_def split: if_splits)
  have "length y < length s"
  proof (cases "CHR 0x0A \<in> set s")
    case True
    with a ne have y: "y = tl (dropWhile (\<lambda>c. c \<noteq> CHR 0x0A) s)" by (simp add: getline_def)
    from True have "dropWhile (\<lambda>c. c \<noteq> CHR 0x0A) s \<noteq> []" by simp
    then have "length (tl (dropWhile (\<lambda>c. c \<noteq> CHR 0x0A) s))
        < length (dropWhile (\<lambda>c. c \<noteq> CHR 0x0A) s)"
      by simp
    also have "\<dots> \<le> length s" by (rule length_dropWhile_le)
    finally show ?thesis by (simp add: y)
  next
    case False
    with a ne show ?thesis by (auto simp: getline_def split: if_splits)
  qed
  then show "((exceptions, csv_line st xa, y), (exceptions, st, s))
      \<in> measure (\<lambda>(exceptions, st, s). length s)" by simp
qed

declare csv_lines.simps [simp del]

text \<open>Steps 1 to 3: the header line, the metadata line, the data lines.\<close>

definition csv_read :: "bool \<Rightarrow> string \<Rightarrow> csv_state \<times> bool" where
  "csv_read exceptions s0 =
     (case getline exceptions s0 of
        Inl e \<Rightarrow> (csv_begin, True)
      | Inr r1 \<Rightarrow>
         let st1 = (case r1 of None \<Rightarrow> csv_begin | Some l \<Rightarrow> csv_begin\<lparr>lineNumber := 1\<rparr>);
             s1 = (case r1 of None \<Rightarrow> [] | Some (l, s) \<Rightarrow> s)
         in (case getline exceptions s1 of
               Inl e \<Rightarrow> (st1, True)
             | Inr r2 \<Rightarrow>
                let st2 = (case r2 of None \<Rightarrow> st1 | Some (l, s) \<Rightarrow> csv_metadata st1 l);
                    s2 = (case r2 of None \<Rightarrow> [] | Some (l, s) \<Rightarrow> s)
                in csv_lines exceptions st2 s2))"

text \<open>
  \<open>load_csv\<close>: the stream's exception reaches \<open>catch (const std::system_error&)\<close>;
  otherwise the records are sorted and copied into the shared region.
\<close>

definition load_csv :: "ENV \<Rightarrow> bool \<Rightarrow> string \<Rightarrow> error + MAPPING list" where
  "load_csv env exceptions a_stream =
     (case csv_read exceptions a_stream of (st, thrown) \<Rightarrow>
        if thrown then Inl FileNotOpenable
        else if mappings st = [] then Inl EmptyDatabase
        else if \<not> mmap_create env then Inl SharedRegionCreationFailed
        else Inr (sort_by_id (mappings st)))"

text \<open>
  The call in the constructor, \<open>STREAM stream(m_path, std::ios::in); load_csv(stream)\<close>:
  \<open>STREAM\<close>'s constructor sets \<open>exceptions(badbit | failbit | eofbit)\<close>.
\<close>

definition load_csv_file :: "ENV \<Rightarrow> string \<Rightarrow> error + MAPPING list" where
  "load_csv_file env contents = load_csv env True contents"

section \<open>The delta codec in the words of the specification (section 4.2)\<close>

text \<open>
  The id-delta and offset-delta kinds: kind, base value (the previous id, or the base of
  the offset), bytes; the result is the decoded value and the bytes left. Multi-byte
  values are little-endian (section 6).
\<close>

definition spec_rule :: "nat \<Rightarrow> u64 \<Rightarrow> u8 list \<Rightarrow> (u64 \<times> u8 list) option" where
  "spec_rule k base bs =
     (if k = 0 then
        (if 8 \<le> length bs then Some (of_nat (le_nat (take 8 bs)), drop 8 bs) else None)
      else if k = 1 then Some (base + 1, bs)
      else if k = 2 then (case bs of b # r \<Rightarrow> Some (base + of_nat (unat b), r) | _ \<Rightarrow> None)
      else if k = 3 then (case bs of b # r \<Rightarrow> Some (base - of_nat (unat b), r) | _ \<Rightarrow> None)
      else if k = 4 then
        (case bs of b0 # b1 # r \<Rightarrow> Some (base + of_nat (unat b0 + 256 * unat b1), r) | _ \<Rightarrow> None)
      else if k = 5 then
        (case bs of b0 # b1 # r \<Rightarrow> Some (base - of_nat (unat b0 + 256 * unat b1), r) | _ \<Rightarrow> None)
      else if k = 6 then
        (case bs of b0 # b1 # r \<Rightarrow> Some (of_nat (unat b0 + 256 * unat b1), r) | _ \<Rightarrow> None)
      else if k = 7 then
        (case bs of b0 # b1 # b2 # b3 # r \<Rightarrow>
           Some (of_nat (unat b0 + 256 * unat b1 + 65536 * unat b2 + 16777216 * unat b3), r)
         | _ \<Rightarrow> None)
      else None)"

text \<open>
  One record: the control byte's low nibble is the id kind, the low three bits of its
  high nibble the offset kind, bit 3 of the high nibble the scaled flag.
\<close>

definition spec_record :: "u64 \<Rightarrow> u64 \<times> u64 \<Rightarrow> u8 list \<Rightarrow> ((u64 \<times> u64) \<times> u8 list) option" where
  "spec_record ptr prev bs =
     (case bs of [] \<Rightarrow> None | c # bs1 \<Rightarrow>
       let lo = unat c mod 16; hi = unat c div 16; scaled = (8 \<le> hi) in
       (case spec_rule lo (fst prev) bs1 of None \<Rightarrow> None | Some (i, bs2) \<Rightarrow>
         let base = (if scaled then snd prev div ptr else snd prev) in
         (case spec_rule (hi mod 8) base bs2 of None \<Rightarrow> None | Some (v, bs3) \<Rightarrow>
           Some ((i, if scaled then v * ptr else v), bs3))))"

text \<open>\<open>recordCount\<close> records, the decoded pair being the previous pair of the next one.\<close>

fun spec_decode :: "nat \<Rightarrow> u64 \<Rightarrow> u64 \<times> u64 \<Rightarrow> u8 list \<Rightarrow> ((u64 \<times> u64) list \<times> u8 list) option" where
  "spec_decode 0 ptr prev bs = Some ([], bs)"
| "spec_decode (Suc n) ptr prev bs =
     (case spec_record ptr prev bs of None \<Rightarrow> None | Some (p, bs') \<Rightarrow>
      (case spec_decode n ptr p bs' of None \<Rightarrow> None | Some (ps, bs'') \<Rightarrow> Some (p # ps, bs'')))"

text \<open>Results of the code, read as results of the specification's decoder.\<close>

definition decoded :: "error + ('a \<times> STREAM) \<Rightarrow> ('a \<times> STREAM) option" where
  "decoded r = (case r of Inl e \<Rightarrow> None | Inr x \<Rightarrow> Some x)"

definition pair_of :: "MAPPING \<Rightarrow> u64 \<times> u64" where
  "pair_of m = (id_of m, offset_of m)"

definition mk_mapping :: "u64 \<times> u64 \<Rightarrow> MAPPING" where
  "mk_mapping p = \<lparr>id_of = fst p, offset_of = snd p\<rparr>"

definition decoded_pair :: "error + (MAPPING \<times> STREAM) \<Rightarrow> ((u64 \<times> u64) \<times> u8 list) option" where
  "decoded_pair r = (case r of Inl e \<Rightarrow> None | Inr (m, s) \<Rightarrow> Some (pair_of m, s))"

definition decoded_pairs ::
  "error + (MAPPING list \<times> STREAM) \<Rightarrow> ((u64 \<times> u64) list \<times> u8 list) option" where
  "decoded_pairs r = (case r of Inl e \<Rightarrow> None | Inr (ms, s) \<Rightarrow> Some (map pair_of ms, s))"

definition decoded_records :: "error + MAPPING list \<Rightarrow> (u64 \<times> u64) list option" where
  "decoded_records r = (case r of Inl e \<Rightarrow> None | Inr ms \<Rightarrow> Some (map pair_of ms))"

section \<open>An encoder after the encoding rules of the specification (section 4.2)\<close>

text \<open>
  The repository only decodes. The encoder below writes a record under a chosen pair of
  kinds and a chosen scaled flag, when the rules of section 4.2 allow that choice for the
  pair: kind 1 needs the value to be the base plus one, kinds 2 to 5 need the distance to
  fit the payload, kinds 6 and 7 need the value to fit it, and the scaled flag needs a
  non-zero pointer size that divides the offset.
\<close>

fun le_bytes :: "nat \<Rightarrow> nat \<Rightarrow> u8 list" where
  "le_bytes 0 x = []"
| "le_bytes (Suc n) x = of_nat (x mod 256) # le_bytes n (x div 256)"

definition spec_encode_value :: "nat \<Rightarrow> u64 \<Rightarrow> u64 \<Rightarrow> u8 list option" where
  "spec_encode_value k base v =
     (if k = 0 then Some (le_bytes 8 (unat v))
      else if k = 1 then (if v = base + 1 then Some [] else None)
      else if k = 2 then
        (if unat (v - base) < 256 then Some (le_bytes 1 (unat (v - base))) else None)
      else if k = 3 then
        (if unat (base - v) < 256 then Some (le_bytes 1 (unat (base - v))) else None)
      else if k = 4 then
        (if unat (v - base) < 65536 then Some (le_bytes 2 (unat (v - base))) else None)
      else if k = 5 then
        (if unat (base - v) < 65536 then Some (le_bytes 2 (unat (base - v))) else None)
      else if k = 6 then (if unat v < 65536 then Some (le_bytes 2 (unat v)) else None)
      else if k = 7 then (if unat v < 4294967296 then Some (le_bytes 4 (unat v)) else None)
      else None)"

definition spec_encode_offset :: "u64 \<Rightarrow> nat \<Rightarrow> bool \<Rightarrow> u64 \<Rightarrow> u64 \<Rightarrow> u8 list option" where
  "spec_encode_offset ptr k scaled prevOffset v =
     (if scaled then
        (if ptr = 0 \<or> v mod ptr \<noteq> 0 then None
         else spec_encode_value k (prevOffset div ptr) (v div ptr))
      else spec_encode_value k prevOffset v)"

definition spec_encode_record ::
  "u64 \<Rightarrow> u64 \<times> u64 \<Rightarrow> nat \<times> nat \<times> bool \<Rightarrow> u64 \<times> u64 \<Rightarrow> u8 list option" where
  "spec_encode_record ptr prev ch p =
     (case ch of (ki, ko, scaled) \<Rightarrow>
      (case spec_encode_value ki (fst prev) (fst p) of None \<Rightarrow> None | Some ib \<Rightarrow>
       (case spec_encode_offset ptr ko scaled (snd prev) (snd p) of None \<Rightarrow> None | Some ob \<Rightarrow>
          Some (of_nat (ki + 16 * (ko + (if scaled then 8 else 0))) # ib @ ob))))"

fun spec_encode ::
  "u64 \<Rightarrow> u64 \<times> u64 \<Rightarrow> (nat \<times> nat \<times> bool) list \<Rightarrow> (u64 \<times> u64) list \<Rightarrow> u8 list option" where
  "spec_encode ptr prev [] [] = Some []"
| "spec_encode ptr prev (ch # chs) (p # ps) =
     (case spec_encode_record ptr prev ch p of None \<Rightarrow> None | Some bs \<Rightarrow>
      (case spec_encode ptr p chs ps of None \<Rightarrow> None | Some tl_bytes \<Rightarrow> Some (bs @ tl_bytes)))"
| "spec_encode ptr prev chs ps = None"

section \<open>Concrete inputs\<close>

text \<open>An environment in which the shared region is created and owned by the caller.\<close>

definition env0 :: ENV where
  "env0 = \<lparr>version = [1, 0, 0, 0], loader = F4SE, mmap_create = True, is_owner = True,
     shared_region = [], mapped_words = [], sha512 = Some []\<rparr>"

text \<open>
  A v2 file behind its format tag: version \<open>65537.0.0.0\<close>, an empty name, pointer size 8,
  no records.
\<close>

definition v2_file_65537 :: "u8 list" where
  "v2_file_65537 = [1,0,1,0, 0,0,0,0, 0,0,0,0, 0,0,0,0,  0,0,0,0,  8,0,0,0,  0,0,0,0]"

text \<open>
  A v2 file behind its format tag: version \<open>9.9.9.9\<close>, a name of 80 bytes whose bytes 64
  to 79 spell the version \<open>1.0.0.0\<close>, pointer size 8, no records.
\<close>

definition v2_file_long_name :: "u8 list" where
  "v2_file_long_name = [9,0,0,0, 9,0,0,0, 9,0,0,0, 9,0,0,0,  80,0,0,0]
     @ replicate 64 0 @ [1,0,0,0, 0,0,0,0, 0,0,0,0, 0,0,0,0]
     @ [8,0,0,0,  0,0,0,0]"

text \<open>The first file with version \<open>2.0.0.0\<close>.\<close>

definition v2_file_2 :: "u8 list" where
  "v2_file_2 = [2,0,0,0, 0,0,0,0, 0,0,0,0, 0,0,0,0,  0,0,0,0,  8,0,0,0,  0,0,0,0]"

text \<open>A v5 file behind its format tag: version \<open>2.0.0.0\<close>, one offset.\<close>

definition v5_file_2 :: "u8 list" where
  "v5_file_2 = [2,0,0,0, 0,0,0,0, 0,0,0,0, 0,0,0,0] @ replicate 64 0
     @ [8,0,0,0,  0,0,0,0,  1,0,0,0,  0x10,0,0,0]"

text \<open>
  A CSV file: the column line, a metadata line with the version label \<open>9.9.9.9\<close>, and
  the two data lines \<open>5,0x10\<close> and \<open>5,0x20\<close>.
\<close>

definition csv_duplicate_file :: string where
  "csv_duplicate_file = ''id,offset'' @ [CHR 0x0A] @ ''1,9.9.9.9'' @ [CHR 0x0A]
     @ ''5,0x10'' @ [CHR 0x0A] @ ''5,0x20'' @ [CHR 0x0A]"

text \<open>The same file with the offsets written in decimal.\<close>

definition csv_decimal_file :: string where
  "csv_decimal_file = ''id,offset'' @ [CHR 0x0A] @ ''1,9.9.9.9'' @ [CHR 0x0A]
     @ ''5,16'' @ [CHR 0x0A] @ ''5,32'' @ [CHR 0x0A]"

section \<open>Candidate sets: proofs\<close>

lemma resolve_fallback_find:
  "resolve_fallback c = (case List.find (\<lambda>x. x \<noteq> 0) c of Some x \<Rightarrow> x | None \<Rightarrow> 0)"
  by (induction c) simp_all

lemma resolve_fallback_hd: "c \<noteq> [] \<Longrightarrow> hd c \<noteq> 0 \<Longrightarrow> resolve_fallback c = hd c"
  by (cases c) simp_all

lemma resolve_fallback_spec: "resolve_fallback c = spec_global_fallback c"
proof (cases "c \<noteq> [] \<and> hd c \<noteq> 0")
  case True
  then show ?thesis by (simp add: spec_global_fallback_def resolve_fallback_hd)
next
  case False
  then have "spec_global_fallback c = (case List.find (\<lambda>x. x \<noteq> 0) c of Some x \<Rightarrow> x | None \<Rightarrow> 0)"
    unfolding spec_global_fallback_def by (simp only: if_False)
  then show ?thesis by (simp only: resolve_fallback_find)
qed

lemma resolve_fallback_mem: "resolve_fallback c = 0 \<or> resolve_fallback c \<in> set c"
  by (induction c) auto

lemma resolve_fallback_zero_iff: "resolve_fallback c = 0 \<longleftrightarrow> (\<forall>x\<in>set c. x = 0)"
  by (induction c) auto

lemma resolve_id_general: "resolve_id c i = spec_resolve c i"
proof (cases "i < length c")
  case False
  then show ?thesis
    by (simp add: resolve_id_def spec_resolve_def resolve_fallback_spec)
next
  case True
  then have ne: "c \<noteq> []" by auto
  then have hd0: "c ! 0 = hd c" by (simp add: hd_conv_nth)
  show ?thesis
  proof (cases "c ! i = 0")
    case False
    with True show ?thesis by (simp add: resolve_id_def spec_resolve_def)
  next
    case z: True
    show ?thesis
    proof (cases "hd c = 0")
      case True
      with z \<open>i < length c\<close> hd0 show ?thesis
        by (simp add: resolve_id_def spec_resolve_def resolve_fallback_for_runtime_def
            resolve_fallback_spec)
    next
      case False
      with z hd0 have "i > 0" by (cases i) auto
      with z False \<open>i < length c\<close> hd0 ne show ?thesis
        by (simp add: resolve_id_def spec_resolve_def resolve_fallback_for_runtime_def
            spec_global_fallback_def)
    qed
  qed
qed

text \<open>
  C3. Candidate-set resolution follows the fallback algorithm of the specification for
  every set and every variant index: an in-range non-zero slot resolves to itself, a zero
  slot and an out-of-range index resolve to the global fallback (slot 0 if non-zero, else
  the first non-zero slot, else 0). In particular \<open>{0x100, 0x200, 0}\<close> at index 2 gives
  \<open>0x100\<close>, \<open>{0, 0x200, 0}\<close> at index 0 gives \<open>0x200\<close>, and \<open>{0, 0, 0}\<close> gives 0 at any
  index.
\<close>

theorem resolve_id_follows_fallback_algorithm:
  "resolve_id c i = spec_resolve c i
   \<and> resolve_id [0x100, 0x200, 0] 2 = 0x100
   \<and> resolve_id [0, 0x200, 0] 0 = 0x200
   \<and> resolve_id [0, 0, 0] j = 0"
proof -
  have "resolve_id [0, 0, 0] j = 0"
    by (simp add: resolve_id_def resolve_fallback_for_runtime_def nth_Cons split: nat.splits)
  moreover have "resolve_id [0x100, 0x200, 0] 2 = 0x100"
    by (simp add: resolve_id_def resolve_fallback_for_runtime_def)
  moreover have "resolve_id [0, 0x200, 0] 0 = 0x200"
    by (simp add: resolve_id_def resolve_fallback_for_runtime_def)
  ultimately show ?thesis using resolve_id_general by simp
qed

theorem resolve_id_follows_fallback_algorithm_witness:
  "resolve_id [7, 0, 9] 1 = 7 \<and> resolve_id [0, 0, 9] 5 = 9"
proof -
  have a: "spec_resolve [7, 0, 9] 1 = 7"
    by (simp add: spec_resolve_def spec_global_fallback_def)
  have b: "spec_resolve [0, 0, 9] 5 = 9"
    by (simp add: spec_resolve_def spec_global_fallback_def)
  from resolve_id_follows_fallback_algorithm [of "[7, 0, 9]" 1 0]
    resolve_id_follows_fallback_algorithm [of "[0, 0, 9]" 5 0] a b
  show ?thesis by simp
qed

text \<open>
  C8, as the claim states it, fails: the two-argument constructor of a 3-slot set leaves
  slot 2 at zero, not at the value of slot 0.
\<close>

theorem two_arg_ctor_slot2_counterexample:
  "raw_id (RelocationIDImpl2 3 0x100 0x200) 2 \<noteq> raw_id (RelocationIDImpl2 3 0x100 0x200) 0"
  by (simp add: raw_id_def RelocationIDImpl2_def)

text \<open>
  C8, amended. The two-argument constructor of a 3-slot candidate set stores the two
  arguments in slots 0 and 1 and zero in slot 2, so that variant 2 resolves, through the
  fallback, to the same id as variant 0.
\<close>

theorem two_arg_ctor_slot2_zero_resolves_as_slot0:
  "RelocationIDImpl2 3 a b = [a, b, 0]
   \<and> raw_id (RelocationIDImpl2 3 a b) 2 = 0
   \<and> resolve_id (RelocationIDImpl2 3 a b) 2 = resolve_id (RelocationIDImpl2 3 a b) 0"
proof -
  have l: "RelocationIDImpl2 3 a b = [a, b, 0]"
    by (simp add: RelocationIDImpl2_def numeral_3_eq_3)
  have "resolve_id [a, b, 0] 2 = resolve_id [a, b, 0] 0"
    by (simp add: resolve_id_def resolve_fallback_for_runtime_def)
  with l show ?thesis by (simp add: raw_id_def)
qed

text \<open>
  C9. For every candidate set and every variant index, \<open>resolve_id\<close> returns zero or a
  value stored in one of the slots, and it returns zero exactly when every slot is zero.
\<close>

theorem resolve_id_zero_or_member:
  "(resolve_id c i = 0 \<or> resolve_id c i \<in> set c)
   \<and> (resolve_id c i = 0 \<longleftrightarrow> (\<forall>x\<in>set c. x = 0))"
proof (cases "i < length c")
  case False
  then show ?thesis
    using resolve_fallback_mem [of c] resolve_fallback_zero_iff [of c]
    by (simp add: resolve_id_def)
next
  case True
  then have ne: "c \<noteq> []" by auto
  then have m0: "c ! 0 \<in> set c" by simp
  from True have mi: "c ! i \<in> set c" by simp
  show ?thesis
  proof (cases "c ! i = 0")
    case False
    with True mi show ?thesis by (auto simp: resolve_id_def)
  next
    case z: True
    show ?thesis
    proof (cases "i > 0 \<and> c ! 0 \<noteq> 0")
      case True
      with z \<open>i < length c\<close> m0 show ?thesis
        by (auto simp: resolve_id_def resolve_fallback_for_runtime_def)
    next
      case False
      with z \<open>i < length c\<close> have "resolve_id c i = resolve_fallback c"
        by (auto simp: resolve_id_def resolve_fallback_for_runtime_def)
      then show ?thesis
        using resolve_fallback_mem [of c] resolve_fallback_zero_iff [of c] by simp
    qed
  qed
qed

theorem resolve_id_zero_or_member_witness:
  "resolve_id [0, 0x200, 0] 2 \<in> set [0, 0x200, 0 :: u64] \<and> resolve_id [0, 0, 0] 1 = 0"
proof -
  have a: "resolve_id [0, 0x200, 0] 2 \<noteq> 0"
    by (simp add: resolve_id_def resolve_fallback_for_runtime_def)
  have b: "\<forall>x\<in>set [0, 0, 0 :: u64]. x = 0" by simp
  from resolve_id_zero_or_member [of "[0, 0x200, 0]" 2] a
    resolve_id_zero_or_member [of "[0, 0, 0]" 1] b
  show ?thesis by blast
qed

section \<open>Address resolver: proofs\<close>

lemma lower_bound_partition:
  "first + count \<le> length v \<Longrightarrow> ascending v \<Longrightarrow>
   (\<forall>i<first. id_of (v ! i) < a_id) \<Longrightarrow>
   (\<forall>i. first + count \<le> i \<and> i < length v \<longrightarrow> a_id \<le> id_of (v ! i)) \<Longrightarrow>
   first \<le> lower_bound v first count a_id
   \<and> lower_bound v first count a_id \<le> first + count
   \<and> (\<forall>i<lower_bound v first count a_id. id_of (v ! i) < a_id)
   \<and> (\<forall>i. lower_bound v first count a_id \<le> i \<and> i < length v \<longrightarrow> a_id \<le> id_of (v ! i))"
proof (induction v first count a_id rule: lower_bound.induct)
  case (1 v first count a_id)
  show ?case
  proof (cases "count > 0")
    case False
    then have "lower_bound v first count a_id = first"
      by (subst lower_bound.simps) simp
    with False "1.prems" show ?thesis by simp
  next
    case pos: True
    define step where "step = count div 2"
    define it where "it = first + step"
    have itlt: "it < length v" using pos "1.prems"(1) by (simp add: it_def step_def)
    have mono: "\<And>i j. i \<le> j \<Longrightarrow> j < length v \<Longrightarrow> id_of (v ! i) \<le> id_of (v ! j)"
    proof -
      fix i j assume "i \<le> j" "j < length v"
      show "id_of (v ! i) \<le> id_of (v ! j)"
      proof (cases "i = j")
        case True then show ?thesis by simp
      next
        case False
        with \<open>i \<le> j\<close> have "i < j" by simp
        with \<open>j < length v\<close> "1.prems"(2) have "id_of (v ! i) < id_of (v ! j)"
          by (simp add: ascending_def sorted_wrt_iff_nth_less)
        then show ?thesis by simp
      qed
    qed
    show ?thesis
    proof (cases "id_of (v ! it) < a_id")
      case True
      have eq: "lower_bound v first count a_id = lower_bound v (it + 1) (count - (step + 1)) a_id"
        using pos True by (simp add: lower_bound.simps [of v first count] it_def step_def Let_def)
      have p1: "it + 1 + (count - (step + 1)) \<le> length v"
        using pos "1.prems"(1) by (simp add: it_def step_def)
      have p3: "\<forall>i<it + 1. id_of (v ! i) < a_id"
      proof (intro allI impI)
        fix i assume "i < it + 1"
        then have "i \<le> it" by simp
        from mono [OF this itlt] True show "id_of (v ! i) < a_id" by simp
      qed
      have p4: "\<forall>i. it + 1 + (count - (step + 1)) \<le> i \<and> i < length v \<longrightarrow> a_id \<le> id_of (v ! i)"
        using "1.prems"(4) pos by (simp add: it_def step_def)
      from "1.IH"(1) [OF pos step_def it_def True p1 "1.prems"(2) p3 p4]
      show ?thesis unfolding eq using pos by (simp add: it_def step_def)
    next
      case False
      have eq: "lower_bound v first count a_id = lower_bound v first step a_id"
        using pos False by (simp add: lower_bound.simps [of v first count] it_def step_def Let_def)
      have p1: "first + step \<le> length v"
        using "1.prems"(1) by (simp add: step_def)
      have p4: "\<forall>i. first + step \<le> i \<and> i < length v \<longrightarrow> a_id \<le> id_of (v ! i)"
      proof (intro allI impI)
        fix i assume "first + step \<le> i \<and> i < length v"
        then have "it \<le> i" "i < length v" by (simp_all add: it_def)
        from mono [OF this] False show "a_id \<le> id_of (v ! i)" by simp
      qed
      have "step \<le> count" by (simp add: step_def)
      with "1.IH"(2) [OF pos step_def it_def False p1 "1.prems"(2) "1.prems"(3) p4]
      show ?thesis unfolding eq by auto
    qed
  qed
qed


lemma lower_bound_whole:
  assumes "ascending v"
  shows "lower_bound v 0 (length v) a_id \<le> length v
   \<and> (\<forall>i<lower_bound v 0 (length v) a_id. id_of (v ! i) < a_id)
   \<and> (\<forall>i. lower_bound v 0 (length v) a_id \<le> i \<and> i < length v \<longrightarrow> a_id \<le> id_of (v ! i))"
proof -
  have "\<forall>i. 0 + length v \<le> i \<and> i < length v \<longrightarrow> a_id \<le> id_of (v ! i)" by auto
  from lower_bound_partition [of 0 "length v" v a_id, OF _ assms _ this]
  show ?thesis by simp
qed

lemma offset_sorted_present:
  assumes asc: "ascending v" and fmt: "to_underlying f < 5" and k: "k < length v"
  shows "offset \<lparr>m_format = f, m_v0 = v, m_v5 = s\<rparr> (id_of (v ! k)) = Inr (offset_of (v ! k))"
proof -
  define r where "r = lower_bound v 0 (length v) (id_of (v ! k))"
  from lower_bound_whole [OF asc, of "id_of (v ! k)"]
  have lo: "\<forall>i<r. id_of (v ! i) < id_of (v ! k)"
    and hi: "\<forall>i. r \<le> i \<and> i < length v \<longrightarrow> id_of (v ! k) \<le> id_of (v ! i)"
    by (simp_all add: r_def)
  from lo have "\<not> k < r" by auto
  then have rk: "r \<le> k" by simp
  have "r = k"
  proof (rule ccontr)
    assume "r \<noteq> k"
    with rk have "r < k" by simp
    with k asc have "id_of (v ! r) < id_of (v ! k)"
      by (simp add: ascending_def sorted_wrt_iff_nth_less)
    moreover from hi rk k have "id_of (v ! k) \<le> id_of (v ! r)" by simp
    ultimately show False by simp
  qed
  moreover from k have "v \<noteq> []" by auto
  ultimately show ?thesis using fmt k by (simp add: offset_def r_def [symmetric])
qed

lemma offset_sorted_above_all:
  assumes asc: "ascending v" and fmt: "to_underlying f < 5" and ne: "v \<noteq> []"
    and big: "\<forall>m\<in>set v. id_of m < a_id"
  shows "offset \<lparr>m_format = f, m_v0 = v, m_v5 = s\<rparr> a_id = Inl (IdNotFound a_id)"
proof -
  define r where "r = lower_bound v 0 (length v) a_id"
  from lower_bound_whole [OF asc, of a_id]
  have le: "r \<le> length v"
    and hi: "\<forall>i. r \<le> i \<and> i < length v \<longrightarrow> a_id \<le> id_of (v ! i)"
    by (simp_all add: r_def)
  have "r = length v"
  proof (rule ccontr)
    assume "r \<noteq> length v"
    with le have lt: "r < length v" by simp
    with hi have "a_id \<le> id_of (v ! r)" by simp
    moreover from lt big have "id_of (v ! r) < a_id" by simp
    ultimately show False by simp
  qed
  then show ?thesis using fmt ne by (simp add: offset_def r_def [symmetric])
qed

lemma offset_sorted_absent_below:
  assumes asc: "ascending v" and fmt: "to_underlying f < 5" and k: "k < length v"
    and above: "a_id < id_of (v ! k)" and below: "\<forall>i<k. id_of (v ! i) < a_id"
  shows "offset \<lparr>m_format = f, m_v0 = v, m_v5 = s\<rparr> a_id = Inr (offset_of (v ! k))"
proof -
  define r where "r = lower_bound v 0 (length v) a_id"
  from lower_bound_whole [OF asc, of a_id]
  have lo: "\<forall>i<r. id_of (v ! i) < a_id"
    and hi: "\<forall>i. r \<le> i \<and> i < length v \<longrightarrow> a_id \<le> id_of (v ! i)"
    by (simp_all add: r_def)
  from lo above have "\<not> k < r" by auto
  then have rk: "r \<le> k" by simp
  have "r = k"
  proof (rule ccontr)
    assume "r \<noteq> k"
    with rk have "r < k" by simp
    with below have "id_of (v ! r) < a_id" by simp
    moreover from hi rk k have "a_id \<le> id_of (v ! r)" by simp
    ultimately show False by simp
  qed
  moreover from k have "v \<noteq> []" by auto
  ultimately show ?thesis using fmt k by (simp add: offset_def r_def [symmetric])
qed

lemma offset_dense_in_range:
  assumes "5 \<le> to_underlying (m_format db)" and "extent (m_v5 db) \<noteq> 0"
    and "unat a_id < length (mapped (m_v5 db))" and "length (mapped (m_v5 db)) \<le> 2 ^ 62"
  shows "offset db a_id =
     (if mapped (m_v5 db) ! unat a_id = 0 then Inl (IdNotFound a_id)
      else Inr (ucast (mapped (m_v5 db) ! unat a_id)))"
proof -
  have "(ucast (mapped (m_v5 db) ! unat a_id) = (0 :: u64)) = (mapped (m_v5 db) ! unat a_id = 0)"
  proof -
    have "unat (ucast (mapped (m_v5 db) ! unat a_id) :: u64) = unat (mapped (m_v5 db) ! unat a_id)"
      by (simp add: unsigned_ucast_eq take_bit_nat_eq_self unsigned_less [THEN less_trans])
    then show ?thesis by (metis unat_eq_zero)
  qed
  moreover from assms(3,4) have "unat a_id mod 2 ^ 62 = unat a_id" by simp
  ultimately show ?thesis using assms(1,2,3) by (simp add: offset_def subscript_v5_def)
qed

text \<open>
  C1. On the sorted-array store the claim asks for \<open>IdNotFound\<close> at every id that is
  not in the store. The code only tests \<open>it == m_v0.end()\<close>: for the store with ids 1 and
  3, the absent id 2 yields the offset of id 3.
\<close>

theorem offset_sorted_absent_id_returns_next_record:
  "offset \<lparr>m_format = V2,
     m_v0 = [\<lparr>id_of = 1, offset_of = 0x10\<rparr>, \<lparr>id_of = 3, offset_of = 0x30\<rparr>],
     m_v5 = \<lparr>mapped = [], extent = 0\<rparr>\<rparr> 2 = Inr 0x30"
  by (simp add: offset_def lower_bound.simps)

text \<open>
  C4. On the dense-array store the claim asks for \<open>IdNotFound\<close> at every id outside the
  array. The code indexes the span without a comparison against its size: with two
  offsets in the span and a third word behind them in the mapping, id 2 yields that
  word; an id beyond the mapping is a fault.
\<close>

theorem offset_dense_out_of_range_reads_past_span:
  "offset \<lparr>m_format = V5, m_v0 = [],
      m_v5 = \<lparr>mapped = [0x10, 0x20, 0x30], extent = 2\<rparr>\<rparr> 2 = Inr 0x30
   \<and> offset \<lparr>m_format = V5, m_v0 = [],
      m_v5 = \<lparr>mapped = [0x10, 0x20], extent = 2\<rparr>\<rparr> 0x10000000000 = Inl AccessViolation"
  by (simp add: offset_def subscript_v5_def)

text \<open>
  C10. With an empty record store, \<open>offset\<close> fails with the error of no loaded Address
  Library for every id, on the sorted-array path (formats below 5) and on the
  dense-array path, before any lookup.
\<close>

theorem offset_empty_store_no_library:
  "(to_underlying (m_format db) < 5 \<and> m_v0 db = [])
    \<or> (5 \<le> to_underlying (m_format db) \<and> extent (m_v5 db) = 0) \<Longrightarrow>
   offset db a_id = Inl NoLibraryLoaded"
  by (auto simp: offset_def)

theorem offset_empty_store_no_library_witness:
  "offset \<lparr>m_format = V2, m_v0 = [], m_v5 = \<lparr>mapped = [], extent = 0\<rparr>\<rparr> 7 = Inl NoLibraryLoaded
   \<and> offset \<lparr>m_format = V5, m_v0 = [], m_v5 = \<lparr>mapped = [], extent = 0\<rparr>\<rparr> 7 = Inl NoLibraryLoaded
   \<and> offset \<lparr>m_format = None_fmt, m_v0 = [], m_v5 = \<lparr>mapped = [], extent = 0\<rparr>\<rparr> 7
       = Inl NoLibraryLoaded"
proof -
  have a: "offset \<lparr>m_format = V2, m_v0 = [], m_v5 = \<lparr>mapped = [], extent = 0\<rparr>\<rparr> 7
      = Inl NoLibraryLoaded"
    by (rule offset_empty_store_no_library) simp
  have b: "offset \<lparr>m_format = V5, m_v0 = [], m_v5 = \<lparr>mapped = [], extent = 0\<rparr>\<rparr> 7
      = Inl NoLibraryLoaded"
    by (rule offset_empty_store_no_library) simp
  have c: "offset \<lparr>m_format = None_fmt, m_v0 = [], m_v5 = \<lparr>mapped = [], extent = 0\<rparr>\<rparr> 7
      = Inl NoLibraryLoaded"
    by (rule offset_empty_store_no_library) simp
  from a b c show ?thesis by simp
qed

section \<open>Delta codec: proofs\<close>

lemma readout_u8_Cons [simp]: "readout_u8 (b # r) = Inr (b, r)"
  by (simp add: readout_u8_def readout_def)

lemma readout_u8_Nil [simp]: "readout_u8 [] = Inl StreamFailure"
  by (simp add: readout_u8_def readout_def)

lemma ucast_u8_u64: "(ucast (b :: u8) :: u64) = of_nat (unat b)"
  by simp

lemma readout_u16_2 [simp]: "readout_u16 (b0 # b1 # r) = Inr (word_of_nat (unat b0 + 256 * unat b1), r)"
  by (simp add: readout_u16_def readout_def)

lemma readout_u16_short [simp]: "readout_u16 [] = Inl StreamFailure" "readout_u16 [b] = Inl StreamFailure"
  by (simp_all add: readout_u16_def readout_def)

lemma ucast_of_nat_u16: "n < 65536 \<Longrightarrow> (ucast (word_of_nat n :: u16) :: u64) = of_nat n"
proof -
  assume n: "n < 65536"
  have "(ucast (word_of_nat n :: u16) :: u64) = of_nat (unat (word_of_nat n :: u16))"
    by (simp only: of_nat_unat)
  also have "unat (word_of_nat n :: u16) = n"
    using n by (simp add: unat_of_nat)
  finally show ?thesis .
qed

lemma u8_lt: "unat (b :: u8) < 256"
  using unsigned_less [of b, where 'a = nat] by simp


lemma mask4: "(0xF :: u8) = mask 4" by (simp add: mask_eq_exp_minus_1)
lemma mask3: "(7 :: u8) = mask 3" by (simp add: mask_eq_exp_minus_1)

lemma and15: "unat ((c::u8) AND 0xF) = unat c mod 16"
  unfolding mask4 by (simp add: take_bit_eq_mask [symmetric] unsigned_take_bit_eq take_bit_eq_mod unat_mod)

lemma and7: "unat ((c::u8) AND 7) = unat c mod 8"
  unfolding mask3 by (simp add: take_bit_eq_mask [symmetric] unsigned_take_bit_eq take_bit_eq_mod unat_mod)

lemma drop4: "unat (drop_bit 4 (c::u8)) = unat c div 16"
  by (simp add: unat_drop_bit_eq drop_bit_eq_div unat_div)

lemma and8: "((h::u8) AND 8 \<noteq> 0) = bit h 3"
proof -
  have "(8 :: u8) = push_bit 3 1" by simp
  show ?thesis
    by (subst \<open>(8 :: u8) = push_bit 3 1\<close>) (simp only: bit_iff_and_push_bit_not_eq_0)
qed

lemma bit3: "unat (h::u8) < 16 \<Longrightarrow> bit h 3 = (8 \<le> unat h)"
proof -
  assume a: "unat h < 16"
  have "bit h 3 = bit (unat h) 3" by (simp add: bit_unsigned_iff)
  also have "\<dots> = odd (unat h div 8)" by (simp add: bit_iff_odd)
  also have "\<dots> = (8 \<le> unat h)" using a by presburger
  finally show ?thesis .
qed


lemma readout_u32_4 [simp]:
  "readout_u32 (b0 # b1 # b2 # b3 # r)
     = Inr (word_of_nat (unat b0 + 256 * unat b1 + 65536 * unat b2 + 16777216 * unat b3), r)"
  by (simp add: readout_u32_def readout_def)

lemma readout_u32_short [simp]:
  "readout_u32 [] = Inl StreamFailure" "readout_u32 [b] = Inl StreamFailure"
  "readout_u32 [b, c] = Inl StreamFailure" "readout_u32 [b, c, d] = Inl StreamFailure"
  by (simp_all add: readout_u32_def readout_def)

lemma ucast_of_nat_u32: "n < 4294967296 \<Longrightarrow> (ucast (word_of_nat n :: u32) :: u64) = of_nat n"
proof -
  assume n: "n < 4294967296"
  have "(ucast (word_of_nat n :: u32) :: u64) = of_nat (unat (word_of_nat n :: u32))"
    by (simp only: of_nat_unat)
  also have "unat (word_of_nat n :: u32) = n"
    using n by (simp add: unat_of_nat)
  finally show ?thesis .
qed

lemma le2_lt: "unat (b0 :: u8) + 256 * unat (b1 :: u8) < 65536"
  using u8_lt [of b0] u8_lt [of b1] by simp

lemma le4_lt:
  "unat (b0 :: u8) + 256 * unat (b1 :: u8) + 65536 * unat (b2 :: u8) + 16777216 * unat (b3 :: u8)
     < 4294967296"
  using u8_lt [of b0] u8_lt [of b1] u8_lt [of b2] u8_lt [of b3] by simp

lemma decoded_u16:
  "decoded (map_read (\<lambda>d. f (ucast d :: u64)) (readout_u16 s))
     = (case s of b0 # b1 # r \<Rightarrow> Some (f (of_nat (unat b0 + 256 * unat b1)), r) | _ \<Rightarrow> None)"
proof (cases s)
  case Nil
  then show ?thesis by (simp add: decoded_def map_read_def)
next
  case (Cons b0 t)
  show ?thesis
  proof (cases t)
    case Nil
    with Cons show ?thesis by (simp add: decoded_def map_read_def)
  next
    case (Cons b1 r)
    with \<open>s = b0 # t\<close> have "s = b0 # b1 # r" by simp
    then show ?thesis
      by (simp only: readout_u16_2 decoded_def map_read_def sum.case prod.case list.case
          ucast_of_nat_u16 [OF le2_lt])
  qed
qed

lemma decoded_u8:
  "decoded (map_read (\<lambda>d. f (ucast d :: u64)) (readout_u8 s))
     = (case s of b # r \<Rightarrow> Some (f (of_nat (unat b)), r) | _ \<Rightarrow> None)"
  by (cases s) (simp_all add: decoded_def map_read_def)

lemma decoded_u32:
  "decoded (map_read (\<lambda>d. f (ucast d :: u64)) (readout_u32 s))
     = (case s of b0 # b1 # b2 # b3 # r \<Rightarrow>
          Some (f (of_nat (unat b0 + 256 * unat b1 + 65536 * unat b2 + 16777216 * unat b3)), r)
        | _ \<Rightarrow> None)"
proof -
  consider "length s < 4" | b0 b1 b2 b3 r where "s = b0 # b1 # b2 # b3 # r"
    by (cases s; cases "tl s"; cases "tl (tl s)"; cases "tl (tl (tl s))") auto
  then show ?thesis
  proof cases
    case 1
    then have "s = [] \<or> (\<exists>b. s = [b]) \<or> (\<exists>b c. s = [b, c]) \<or> (\<exists>b c d. s = [b, c, d])"
      by (cases s; cases "tl s"; cases "tl (tl s)"; cases "tl (tl (tl s))") auto
    then show ?thesis by (auto simp: decoded_def map_read_def)
  next
    case 2
    then show ?thesis
      by (simp only: readout_u32_4 decoded_def map_read_def sum.case prod.case list.case
          ucast_of_nat_u32 [OF le4_lt])
  qed
qed

lemma decoded_u64:
  "decoded (readout_u64 s)
     = (if 8 \<le> length s then Some (of_nat (le_nat (take 8 s)), drop 8 s) else None)"
  by (simp add: decoded_def readout_u64_def readout_def)

lemma u8_cases:
  "unat (w :: u8) = n \<Longrightarrow> w = of_nat n"
  by (metis of_nat_unat ucast_id)

lemma switch_id_spec: "decoded (switch_id lo prev s) = spec_rule (unat lo) prev s"
proof -
  consider "unat lo = 0" | "unat lo = 1" | "unat lo = 2" | "unat lo = 3" | "unat lo = 4"
    | "unat lo = 5" | "unat lo = 6" | "unat lo = 7" | "unat lo > 7"
    by linarith
  then show ?thesis
  proof cases
    case 1
    then have "lo = 0" by (simp add: unat_eq_zero)
    then show ?thesis by (simp add: switch_id_def spec_rule_def decoded_u64)
  next
    case 2
    from u8_cases [OF this] show ?thesis by (simp add: switch_id_def spec_rule_def decoded_def)
  next
    case 3
    from u8_cases [OF this] show ?thesis
      by (simp add: switch_id_def spec_rule_def decoded_u8 [of "\<lambda>x. prev + x"])
  next
    case 4
    from u8_cases [OF this] show ?thesis
      by (simp add: switch_id_def spec_rule_def decoded_u8 [of "\<lambda>x. prev - x"])
  next
    case 5
    from u8_cases [OF this] show ?thesis
      by (simp add: switch_id_def spec_rule_def decoded_u16 [of "\<lambda>x. prev + x"])
  next
    case 6
    from u8_cases [OF this] show ?thesis
      by (simp add: switch_id_def spec_rule_def decoded_u16 [of "\<lambda>x. prev - x"])
  next
    case 7
    from u8_cases [OF this] show ?thesis
      by (simp add: switch_id_def spec_rule_def decoded_u16 [of "\<lambda>x. x"])
  next
    case 8
    from u8_cases [OF this] show ?thesis
      by (simp add: switch_id_def spec_rule_def decoded_u32 [of "\<lambda>x. x"])
  next
    case 9
    then have "lo \<noteq> 0" "lo \<noteq> 1" "lo \<noteq> 2" "lo \<noteq> 3" "lo \<noteq> 4" "lo \<noteq> 5" "lo \<noteq> 6" "lo \<noteq> 7"
      by auto
    with 9 show ?thesis by (simp add: switch_id_def spec_rule_def decoded_def)
  qed
qed


lemma switch_offset_eq: "switch_offset k tmp s = switch_id k tmp s"
  by (simp add: switch_offset_def switch_id_def)


lemma decoded_None: "decoded r = None \<Longrightarrow> \<exists>e. r = Inl e"
  by (cases r) (simp_all add: decoded_def)

lemma decoded_Some: "decoded r = Some x \<Longrightarrow> r = Inr x"
  by (cases r) (simp_all add: decoded_def)

lemma unpack_mapping_spec:
  assumes ptr: "ptr \<noteq> 0"
  shows "decoded_pair (unpack_mapping ptr prev s) = spec_record ptr prev s"
proof (cases s)
  case Nil
  then show ?thesis
    by (cases prev) (simp add: unpack_mapping_def spec_record_def decoded_pair_def)
next
  case (Cons c bs1)
  obtain prevID prevOffset where prev: "prev = (prevID, prevOffset)" by (cases prev)
  define lo where "lo = c AND 0xF"
  define hi where "hi = drop_bit 4 c"
  have lo: "unat lo = unat c mod 16" by (simp only: lo_def and15)
  have hi: "unat hi = unat c div 16" by (simp only: hi_def drop4)
  have "unat hi < 16" using u8_lt [of c] by (simp add: hi)
  then have sc: "(hi AND 8 \<noteq> 0) = (8 \<le> unat c div 16)"
    by (simp only: and8 bit3 hi)
  have h7: "unat (hi AND 7) = unat c div 16 mod 8" by (simp only: and7 hi)
  have un: "unpack_mapping ptr prev s =
     (case switch_id lo prevID bs1 of Inl e \<Rightarrow> Inl e | Inr (id_v, s2) \<Rightarrow>
        let tmp = (if 8 \<le> unat c div 16 then prevOffset div ptr else prevOffset) in
        (case switch_id (hi AND 7) tmp s2 of Inl e \<Rightarrow> Inl e | Inr (offset_v, s3) \<Rightarrow>
           Inr (\<lparr>id_of = id_v,
                offset_of = (if 8 \<le> unat c div 16 then offset_v * ptr else offset_v)\<rparr>, s3)))"
    using ptr
    by (simp add: unpack_mapping_def prev Cons Let_def switch_offset_eq sc
        flip: lo_def hi_def cong: sum.case_cong)
  have sp: "spec_record ptr prev s =
     (case spec_rule (unat lo) prevID bs1 of None \<Rightarrow> None | Some (i, bs2) \<Rightarrow>
        let base = (if 8 \<le> unat c div 16 then prevOffset div ptr else prevOffset) in
        (case spec_rule (unat (hi AND 7)) base bs2 of None \<Rightarrow> None | Some (v, bs3) \<Rightarrow>
           Some ((i, if 8 \<le> unat c div 16 then v * ptr else v), bs3)))"
    by (simp add: spec_record_def prev Cons Let_def lo h7 cong: option.case_cong)
  show ?thesis
  proof (cases "spec_rule (unat lo) prevID bs1")
    case None
    then have "decoded (switch_id lo prevID bs1) = None" by (simp only: switch_id_spec)
    from decoded_None [OF this] obtain e where "switch_id lo prevID bs1 = Inl e" ..
    with None show ?thesis by (simp add: un sp decoded_pair_def)
  next
    case (Some a)
    obtain i bs2 where a: "a = (i, bs2)" by (cases a)
    from Some have "decoded (switch_id lo prevID bs1) = Some (i, bs2)"
      by (simp only: switch_id_spec a)
    from decoded_Some [OF this] have s1: "switch_id lo prevID bs1 = Inr (i, bs2)" .
    define base where "base = (if 8 \<le> unat c div 16 then prevOffset div ptr else prevOffset)"
    show ?thesis
    proof (cases "spec_rule (unat (hi AND 7)) base bs2")
      case None
      then have "decoded (switch_id (hi AND 7) base bs2) = None" by (simp only: switch_id_spec)
      from decoded_None [OF this] obtain e where "switch_id (hi AND 7) base bs2 = Inl e" ..
      with None Some a s1 show ?thesis
        by (simp add: un sp decoded_pair_def Let_def flip: base_def)
    next
      case (Some b)
      obtain v bs3 where b: "b = (v, bs3)" by (cases b)
      from Some have "decoded (switch_id (hi AND 7) base bs2) = Some (v, bs3)"
        by (simp only: switch_id_spec b)
      from decoded_Some [OF this] have "switch_id (hi AND 7) base bs2 = Inr (v, bs3)" .
      with Some b \<open>spec_rule (unat lo) prevID bs1 = Some a\<close> a s1 show ?thesis
        by (simp add: un sp decoded_pair_def pair_of_def Let_def flip: base_def)
    qed
  qed
qed

lemma unpack_loop_spec:
  "ptr \<noteq> 0 \<Longrightarrow> decoded_pairs (unpack_loop n ptr prev s) = spec_decode n ptr prev s"
proof (induction n arbitrary: prev s)
  case 0
  then show ?case by (simp add: decoded_pairs_def)
next
  case (Suc n)
  show ?case
  proof (cases "unpack_mapping ptr prev s")
    case (Inl e)
    then have "decoded_pair (unpack_mapping ptr prev s) = None" by (simp add: decoded_pair_def)
    then have "spec_record ptr prev s = None" by (simp only: unpack_mapping_spec [OF Suc.prems])
    with Inl show ?thesis by (simp add: decoded_pairs_def)
  next
    case (Inr a)
    obtain m s' where a: "a = (m, s')" by (cases a)
    with Inr have "decoded_pair (unpack_mapping ptr prev s) = Some (pair_of m, s')"
      by (simp add: decoded_pair_def)
    then have sr: "spec_record ptr prev s = Some (pair_of m, s')"
      by (simp only: unpack_mapping_spec [OF Suc.prems])
    have ih: "decoded_pairs (unpack_loop n ptr (pair_of m) s') = spec_decode n ptr (pair_of m) s'"
      by (rule Suc.IH [OF Suc.prems])
    show ?thesis
      using Inr a sr ih
      by (cases "unpack_loop n ptr (pair_of m) s'")
        (auto simp: decoded_pairs_def pair_of_def split: option.splits)
  qed
qed

lemma unpack_file_spec:
  assumes "pointer_size h \<noteq> 0"
  shows "decoded_records (unpack_file s h)
     = map_option fst (spec_decode (address_count h) (pointer_size h) (0, 0) s)"
proof -
  from unpack_loop_spec [OF assms, of "address_count h" "(0, 0)" s, symmetric]
  show ?thesis
    by (cases "unpack_loop (address_count h) (pointer_size h) (0, 0) s")
      (auto simp: unpack_file_def decoded_records_def decoded_pairs_def)
qed

text \<open>
  C2. The delta codec decodes each record as the specification describes: for a non-zero
  pointer size, decoding \<open>n\<close> records from any previous pair and any byte stream gives
  what the decoder written after section 4.2 gives (the id rule by the low nibble, the
  offset rule by the low three bits of the high nibble over \<open>prevOffset\<close> or, scaled,
  over \<open>prevOffset / pointerSize\<close> with the result multiplied by \<open>pointerSize\<close>, the
  decoded pair being the previous pair of the next record), and fails where that gives
  nothing; so does \<open>unpack_file\<close>, which starts from the pair \<open>(0, 0)\<close>.
\<close>

theorem unpack_file_decodes_as_specified:
  "ptr \<noteq> 0 \<Longrightarrow>
   decoded_pairs (unpack_loop n ptr prev s) = spec_decode n ptr prev s
   \<and> (pointer_size h = ptr \<longrightarrow>
        decoded_records (unpack_file s h)
          = map_option fst (spec_decode (address_count h) ptr (0, 0) s))"
  using unpack_loop_spec [of ptr n prev s] unpack_file_spec [of h s] by auto

theorem unpack_file_decodes_as_specified_witness:
  "decoded_pairs (unpack_loop 2 8 (0, 0) [0x92, 5, 0x11]) = Some ([(5, 8), (6, 9)], [])
   \<and> decoded_records (unpack_file [0x92, 5, 0x11]
        \<lparr>m_name = [], m_gameVersion = [1, 0, 0, 0], m_pointerSize = 8, m_addressCount = 2\<rparr>)
      = Some [(5, 8), (6, 9)]"
proof -
  define h where "h = \<lparr>m_name = [], m_gameVersion = [1, 0, 0, 0 :: u32],
     m_pointerSize = 8, m_addressCount = 2\<rparr>"
  have p: "pointer_size h = 8" by (simp add: pointer_size_def h_def)
  have c: "address_count h = 2" by (simp add: address_count_def h_def)
  have nz: "(8 :: u64) \<noteq> 0" by simp
  have r1: "spec_record 8 (0, 0) [0x92, 5, 0x11] = Some ((5, 8), [0x11])"
    by (simp add: spec_record_def spec_rule_def Let_def)
  have r2: "spec_record 8 (5, 8) [0x11] = Some ((6, 9), [])"
    by (simp add: spec_record_def spec_rule_def Let_def)
  have sp: "spec_decode 2 8 (0, 0) [0x92, 5, 0x11] = Some ([(5, 8), (6, 9)], [])"
    by (simp add: numeral_2_eq_2 r1 r2)
  from unpack_file_decodes_as_specified [OF nz, of 2 "(0, 0)" "[0x92, 5, 0x11]" h] p c sp
  show ?thesis by (simp add: h_def)
qed

section \<open>Round trip: proofs\<close>

lemma length_le_bytes [simp]: "length (le_bytes n x) = n"
  by (induction n arbitrary: x) simp_all

lemma le_nat_le_bytes: "le_nat (le_bytes n x) = x mod 256 ^ n"
proof (induction n arbitrary: x)
  case 0
  then show ?case by simp
next
  case (Suc n)
  have "unat (of_nat (x mod 256) :: u8) = x mod 256" by (simp add: unat_of_nat)
  then have "le_nat (le_bytes (Suc n) x) = x mod 256 + 256 * ((x div 256) mod 256 ^ n)"
    by (simp add: Suc.IH)
  also have "\<dots> = x mod 256 ^ Suc n"
    by (simp add: mod_mult2_eq)
  finally show ?case .
qed

lemma le_nat_take_le_bytes: "le_nat (take n (le_bytes n x @ r)) = x mod 256 ^ n"
  by (simp add: le_nat_le_bytes)

lemma spec_rule_0: "spec_rule 0 base (le_bytes 8 (unat v) @ r) = Some (v, r)"
proof -
  have "unat v < 256 ^ 8" using unsigned_less [of v, where 'a = nat] by simp
  then have "le_nat (take 8 (le_bytes 8 (unat v) @ r)) = unat v"
    by (simp only: le_nat_take_le_bytes mod_less)
  then show ?thesis by (simp add: spec_rule_def)
qed

lemma le_bytes_1: "x < 256 \<Longrightarrow> le_bytes 1 x = [of_nat x]"
  by simp

lemma le_bytes_2: "le_bytes 2 x = [of_nat (x mod 256), of_nat (x div 256 mod 256)]"
proof -
  have "(2 :: nat) = Suc (Suc 0)" by simp
  then show ?thesis by (simp only: le_bytes.simps)
qed

lemma le_bytes_4:
  "le_bytes 4 x = [of_nat (x mod 256), of_nat (x div 256 mod 256),
     of_nat (x div 256 div 256 mod 256), of_nat (x div 256 div 256 div 256 mod 256)]"
proof -
  have "(4 :: nat) = Suc (Suc (Suc (Suc 0)))" by simp
  then show ?thesis by (simp only: le_bytes.simps)
qed

lemma unat_byte: "unat (of_nat (x mod 256) :: u8) = x mod 256"
  by (simp add: unat_of_nat)

lemma two_bytes:
  assumes "x < 65536"
  shows "unat (of_nat (x mod 256) :: u8) + 256 * unat (of_nat (x div 256 mod 256) :: u8) = x"
proof -
  have "le_nat (le_bytes 2 x) = x" using assms by (simp add: le_nat_le_bytes)
  moreover have "le_nat (le_bytes 2 x) =
     unat (of_nat (x mod 256) :: u8) + 256 * unat (of_nat (x div 256 mod 256) :: u8)"
    by (simp add: le_bytes_2)
  ultimately show ?thesis by (simp only:)
qed

lemma four_bytes:
  assumes "x < 4294967296"
  shows "unat (of_nat (x mod 256) :: u8) + 256 * unat (of_nat (x div 256 mod 256) :: u8)
     + 65536 * unat (of_nat (x div 256 div 256 mod 256) :: u8)
     + 16777216 * unat (of_nat (x div 256 div 256 div 256 mod 256) :: u8) = x"
proof -
  have "le_nat (le_bytes 4 x) = x" using assms by (simp add: le_nat_le_bytes)
  moreover have "le_nat (le_bytes 4 x) =
     unat (of_nat (x mod 256) :: u8) + 256 * unat (of_nat (x div 256 mod 256) :: u8)
     + 65536 * unat (of_nat (x div 256 div 256 mod 256) :: u8)
     + 16777216 * unat (of_nat (x div 256 div 256 div 256 mod 256) :: u8)"
    by (simp add: le_bytes_4)
  ultimately show ?thesis by (simp only:)
qed

lemma of_nat_unat_u64: "(of_nat (unat (w :: u64)) :: u64) = w"
  by simp

lemma one_byte:
  assumes "unat (d :: u64) < 256"
  shows "(of_nat (unat (of_nat (unat d) :: u8)) :: u64) = d"
proof -
  have "unat (of_nat (unat d) :: u8) = unat d mod 256" by (simp only: unat_of_nat) simp
  with assms have "unat (of_nat (unat d) :: u8) = unat d" by simp
  then show ?thesis by (simp only: of_nat_unat_u64)
qed

lemma spec_rule_2: "unat (d :: u64) < 256 \<Longrightarrow>
   spec_rule 2 base (le_bytes 1 (unat d) @ r) = Some (base + d, r)"
  by (simp only: spec_rule_def le_bytes_1 append_Cons append_Nil list.case one_byte) simp

lemma spec_rule_3: "unat (d :: u64) < 256 \<Longrightarrow>
   spec_rule 3 base (le_bytes 1 (unat d) @ r) = Some (base - d, r)"
  by (simp only: spec_rule_def le_bytes_1 append_Cons append_Nil list.case one_byte) simp

lemma two_bytes_u64: "unat (d :: u64) < 65536 \<Longrightarrow>
  (of_nat (unat (of_nat (unat d mod 256) :: u8)
          + 256 * unat (of_nat (unat d div 256 mod 256) :: u8)) :: u64) = d"
  by (simp only: two_bytes of_nat_unat_u64)

lemma four_bytes_u64: "unat (d :: u64) < 4294967296 \<Longrightarrow>
  (of_nat (unat (of_nat (unat d mod 256) :: u8)
          + 256 * unat (of_nat (unat d div 256 mod 256) :: u8)
          + 65536 * unat (of_nat (unat d div 256 div 256 mod 256) :: u8)
          + 16777216 * unat (of_nat (unat d div 256 div 256 div 256 mod 256) :: u8)) :: u64) = d"
  by (simp only: four_bytes of_nat_unat_u64)

lemma spec_rule_4: "unat (d :: u64) < 65536 \<Longrightarrow>
   spec_rule 4 base (le_bytes 2 (unat d) @ r) = Some (base + d, r)"
  by (simp only: spec_rule_def le_bytes_2 append_Cons append_Nil list.case two_bytes_u64) simp

lemma spec_rule_5: "unat (d :: u64) < 65536 \<Longrightarrow>
   spec_rule 5 base (le_bytes 2 (unat d) @ r) = Some (base - d, r)"
  by (simp only: spec_rule_def le_bytes_2 append_Cons append_Nil list.case two_bytes_u64) simp

lemma spec_rule_6: "unat (d :: u64) < 65536 \<Longrightarrow>
   spec_rule 6 base (le_bytes 2 (unat d) @ r) = Some (d, r)"
  by (simp only: spec_rule_def le_bytes_2 append_Cons append_Nil list.case two_bytes_u64) simp

lemma spec_rule_7: "unat (d :: u64) < 4294967296 \<Longrightarrow>
   spec_rule 7 base (le_bytes 4 (unat d) @ r) = Some (d, r)"
  by (simp only: spec_rule_def le_bytes_4 append_Cons append_Nil list.case four_bytes_u64) simp

lemma spec_rule_1: "spec_rule 1 base r = Some (base + 1, r)"
  by (simp add: spec_rule_def)

lemma spec_rule_encode:
  assumes "spec_encode_value k base v = Some bs"
  shows "spec_rule k base (bs @ r) = Some (v, r)"
proof -
  from assms have "k < 8" by (simp add: spec_encode_value_def split: if_splits)
  then consider "k = 0" | "k = 1" | "k = 2" | "k = 3" | "k = 4" | "k = 5" | "k = 6" | "k = 7"
    by linarith
  then show ?thesis
  proof cases
    case 1
    with assms show ?thesis by (auto simp: spec_encode_value_def spec_rule_0)
  next
    case 2
    with assms show ?thesis by (auto simp: spec_encode_value_def spec_rule_def split: if_splits)
  next
    case 3
    with assms have "unat (v - base) < 256" "bs = le_bytes 1 (unat (v - base))"
      by (auto simp: spec_encode_value_def split: if_splits)
    with 3 spec_rule_2 [of "v - base" base r] show ?thesis by simp
  next
    case 4
    with assms have "unat (base - v) < 256" "bs = le_bytes 1 (unat (base - v))"
      by (auto simp: spec_encode_value_def split: if_splits)
    with 4 spec_rule_3 [of "base - v" base r] show ?thesis by simp
  next
    case 5
    with assms have "unat (v - base) < 65536" "bs = le_bytes 2 (unat (v - base))"
      by (auto simp: spec_encode_value_def split: if_splits)
    with 5 spec_rule_4 [of "v - base" base r] show ?thesis by simp
  next
    case 6
    with assms have "unat (base - v) < 65536" "bs = le_bytes 2 (unat (base - v))"
      by (auto simp: spec_encode_value_def split: if_splits)
    with 6 spec_rule_5 [of "base - v" base r] show ?thesis by simp
  next
    case 7
    with assms have "unat v < 65536" "bs = le_bytes 2 (unat v)"
      by (auto simp: spec_encode_value_def split: if_splits)
    with 7 spec_rule_6 [of v base r] show ?thesis by simp
  next
    case 8
    with assms have "unat v < 4294967296" "bs = le_bytes 4 (unat v)"
      by (auto simp: spec_encode_value_def split: if_splits)
    with 8 spec_rule_7 [of v base r] show ?thesis by simp
  qed
qed

lemma switch_id_encode:
  assumes "spec_encode_value k base v = Some bs"
  shows "switch_id (of_nat k) base (bs @ r) = Inr (v, r)"
proof -
  from assms have "k < 8" by (simp add: spec_encode_value_def split: if_splits)
  then have "unat (of_nat k :: u8) = k" by (simp add: unat_of_nat)
  with spec_rule_encode [OF assms, of r]
  have "decoded (switch_id (of_nat k) base (bs @ r)) = Some (v, r)"
    by (simp only: switch_id_spec)
  then show ?thesis by (rule decoded_Some)
qed

lemma control_byte:
  fixes scaled :: bool
  assumes "ki < 8" "ko < 8"
    and c_def: "c = (of_nat (ki + 16 * (ko + (if scaled then 8 else 0))) :: u8)"
  shows "c AND 0xF = of_nat ki" "drop_bit 4 c AND 7 = of_nat ko"
    "(drop_bit 4 c AND 8 \<noteq> 0) = scaled"
proof -
  define n where "n = ko + (if scaled then 8 else (0 :: nat))"
  have n16: "n < 16" using assms(2) by (simp add: n_def)
  have nko: "n mod 8 = ko" using assms(2) by (simp add: n_def)
  have nsc: "(8 \<le> n) = scaled" using assms(2) by (simp add: n_def)
  have uc: "unat c = ki + 16 * n"
  proof -
    have "ki + 16 * n < 256" using assms(1) n16 by simp
    then have "(ki + 16 * n) mod 2 ^ LENGTH(8) = ki + 16 * n" by simp
    then show ?thesis unfolding c_def n_def by (simp only: unat_of_nat)
  qed
  have "unat (c AND 0xF) = ki" using assms(1) by (simp add: and15 uc)
  then show "c AND 0xF = of_nat ki" by (rule u8_cases)
  have hi: "unat (drop_bit 4 c) = n"
    using assms(1) by (simp add: drop4 uc)
  have "unat (drop_bit 4 c AND 7) = ko" by (simp add: and7 hi nko)
  then show "drop_bit 4 c AND 7 = of_nat ko" by (rule u8_cases)
  have "unat (drop_bit 4 c) < 16" by (simp add: hi n16)
  then have "(drop_bit 4 c AND 8 \<noteq> 0) = (8 \<le> unat (drop_bit 4 c))"
    by (simp only: and8 bit3)
  also have "\<dots> = scaled" by (simp add: hi nsc)
  finally show "(drop_bit 4 c AND 8 \<noteq> 0) = scaled" .
qed

lemma spec_encode_value_kind: "spec_encode_value k base v = Some bs \<Longrightarrow> k < 8"
  by (simp add: spec_encode_value_def split: if_splits)

lemma scaled_back: "(v :: u64) mod ptr = 0 \<Longrightarrow> v div ptr * ptr = v"
  using div_mult_mod_eq [of v ptr] by simp

lemma unpack_mapping_encode:
  assumes "spec_encode_record ptr prev ch p = Some bs"
  shows "unpack_mapping ptr prev (bs @ r) = Inr (mk_mapping p, r)"
proof -
  obtain ki ko scaled where ch: "ch = (ki, ko, scaled)" by (cases ch)
  obtain prevID prevOffset where prev: "prev = (prevID, prevOffset)" by (cases prev)
  obtain i v where p: "p = (i, v)" by (cases p)
  from assms obtain ib ob where
    ib: "spec_encode_value ki prevID i = Some ib" and
    ob: "spec_encode_offset ptr ko scaled prevOffset v = Some ob" and
    bs: "bs = of_nat (ki + 16 * (ko + (if scaled then 8 else 0))) # ib @ ob"
    by (auto simp: spec_encode_record_def ch prev p split: option.splits)
  have ki: "ki < 8" using ib by (rule spec_encode_value_kind)
  have ko: "ko < 8" using ob
    by (auto simp: spec_encode_offset_def split: if_splits dest: spec_encode_value_kind)
  note cb = control_byte [OF ki ko refl, of scaled]
  have s1: "switch_id (of_nat ki) prevID (ib @ ob @ r) = Inr (i, ob @ r)"
    using ib by (rule switch_id_encode)
  show ?thesis
  proof (cases scaled)
    case False
    with ob have "spec_encode_value ko prevOffset v = Some ob"
      by (simp add: spec_encode_offset_def)
    then have s2: "switch_id (of_nat ko) prevOffset (ob @ r) = Inr (v, r)"
      by (rule switch_id_encode)
    from False cb s1 s2 show ?thesis
      by (simp add: unpack_mapping_def prev p bs mk_mapping_def switch_offset_eq)
  next
    case True
    with ob have nz: "ptr \<noteq> 0" and dv: "v mod ptr = 0"
      and "spec_encode_value ko (prevOffset div ptr) (v div ptr) = Some ob"
      by (auto simp: spec_encode_offset_def split: if_splits)
    then have s2: "switch_id (of_nat ko) (prevOffset div ptr) (ob @ r) = Inr (v div ptr, r)"
      by (simp add: switch_id_encode)
    from True cb s1 s2 nz scaled_back [OF dv] show ?thesis
      by (simp add: unpack_mapping_def prev p bs mk_mapping_def switch_offset_eq)
  qed
qed

lemma unpack_loop_encode:
  "spec_encode ptr prev chs ps = Some bs \<Longrightarrow>
   unpack_loop (length ps) ptr prev (bs @ r) = Inr (map mk_mapping ps, r)"
proof (induction ptr prev chs ps arbitrary: bs rule: spec_encode.induct)
  case (1 ptr prev)
  then show ?case by simp
next
  case (2 ptr prev ch chs p ps)
  from "2.prems" obtain b1 b2 where
    b1: "spec_encode_record ptr prev ch p = Some b1" and
    b2: "spec_encode ptr p chs ps = Some b2" and bs: "bs = b1 @ b2"
    by (auto split: option.splits)
  have m: "unpack_mapping ptr prev (b1 @ b2 @ r) = Inr (mk_mapping p, b2 @ r)"
    using b1 by (rule unpack_mapping_encode)
  have pp: "(id_of (mk_mapping p), offset_of (mk_mapping p)) = p"
    by (simp add: mk_mapping_def)
  from "2.IH" [OF b1 b2] have "unpack_loop (length ps) ptr p (b2 @ r) = Inr (map mk_mapping ps, r)" .
  with m pp show ?case by (simp add: bs)
qed simp_all

text \<open>
  C6. Round trip: whenever the encoder after section 4.2 writes a sequence of pairs under
  some choice of kinds and scaled flags, starting from the pair \<open>(0, 0)\<close>, \<open>unpack_file\<close>
  with the same pointer size and a record count equal to the length of the sequence
  decodes the bytes (whatever follows them) to exactly that sequence.
\<close>

theorem unpack_file_inverts_spec_encode:
  "spec_encode (pointer_size h) (0, 0) chs ps = Some bs \<Longrightarrow> address_count h = length ps \<Longrightarrow>
   unpack_file (bs @ r) h = Inr (map mk_mapping ps)"
  using unpack_loop_encode [of "pointer_size h" "(0, 0)" chs ps bs r]
  by (simp add: unpack_file_def)

theorem unpack_file_inverts_spec_encode_witness:
  "spec_encode 8 (0, 0) [(2, 1, True), (1, 1, False), (0, 7, False)]
      [(5, 8), (6, 9), (0x1122334455667788, 0xAABBCCDD)]
     = Some [0x92, 5, 0x11, 0x70, 0x88, 0x77, 0x66, 0x55, 0x44, 0x33, 0x22, 0x11,
             0xDD, 0xCC, 0xBB, 0xAA]
   \<and> unpack_file [0x92, 5, 0x11, 0x70, 0x88, 0x77, 0x66, 0x55, 0x44, 0x33, 0x22, 0x11,
             0xDD, 0xCC, 0xBB, 0xAA]
        \<lparr>m_name = [], m_gameVersion = [1, 0, 0, 0], m_pointerSize = 8, m_addressCount = 3\<rparr>
      = Inr [\<lparr>id_of = 5, offset_of = 8\<rparr>, \<lparr>id_of = 6, offset_of = 9\<rparr>,
             \<lparr>id_of = 0x1122334455667788, offset_of = 0xAABBCCDD\<rparr>]"
proof -
  define h where "h = \<lparr>m_name = [], m_gameVersion = [1, 0, 0, 0 :: u32],
     m_pointerSize = 8, m_addressCount = 3\<rparr>"
  have p: "pointer_size h = 8" by (simp add: pointer_size_def h_def)
  have c: "address_count h = 3" by (simp add: address_count_def h_def)
  have e1: "spec_encode_record 8 (0, 0) (2, 1, True) (5, 8) = Some [0x92, 5]"
    by (simp add: spec_encode_record_def spec_encode_value_def spec_encode_offset_def le_bytes_1)
  have e2: "spec_encode_record 8 (5, 8) (1, 1, False) (6, 9) = Some [0x11]"
    by (simp add: spec_encode_record_def spec_encode_value_def spec_encode_offset_def)
  have b8: "le_bytes 8 0x1122334455667788
      = [0x88, 0x77, 0x66, 0x55, 0x44, 0x33, 0x22, 0x11]"
  proof -
    have "(8 :: nat) = Suc (Suc (Suc (Suc (Suc (Suc (Suc (Suc 0)))))))" by simp
    then show ?thesis by (simp only: le_bytes.simps) simp
  qed
  have b4: "le_bytes 4 0xAABBCCDD = [0xDD, 0xCC, 0xBB, 0xAA]"
    by (simp add: le_bytes_4)
  have e3: "spec_encode_record 8 (6, 9) (0, 7, False) (0x1122334455667788, 0xAABBCCDD)
      = Some [0x70, 0x88, 0x77, 0x66, 0x55, 0x44, 0x33, 0x22, 0x11, 0xDD, 0xCC, 0xBB, 0xAA]"
    by (simp add: spec_encode_record_def spec_encode_value_def spec_encode_offset_def b8 b4)
  have e: "spec_encode 8 (0, 0) [(2, 1, True), (1, 1, False), (0, 7, False)]
      [(5, 8), (6, 9), (0x1122334455667788, 0xAABBCCDD)]
     = Some [0x92, 5, 0x11, 0x70, 0x88, 0x77, 0x66, 0x55, 0x44, 0x33, 0x22, 0x11,
             0xDD, 0xCC, 0xBB, 0xAA]"
    by (simp only: spec_encode.simps e1 e2 e3 option.case append_Cons append_Nil)
  from e p have e': "spec_encode (pointer_size h) (0, 0) [(2, 1, True), (1, 1, False), (0, 7, False)]
      [(5, 8), (6, 9), (0x1122334455667788, 0xAABBCCDD)]
     = Some [0x92, 5, 0x11, 0x70, 0x88, 0x77, 0x66, 0x55, 0x44, 0x33, 0x22, 0x11,
             0xDD, 0xCC, 0xBB, 0xAA]" by simp
  from c have c': "address_count h = length [(5, 8), (6, 9), (0x1122334455667788, 0xAABBCCDD :: u64) :: u64 \<times> u64]"
    by simp
  from unpack_file_inverts_spec_encode [OF e' c', of "[]"] e
  show ?thesis by (simp add: h_def mk_mapping_def)
qed

section \<open>Load paths and textual ingestion: proofs\<close>

lemma getline_shorter: "getline exc s = Inr (Some (line, s')) \<Longrightarrow> length s' < length s"
proof -
  assume a: "getline exc s = Inr (Some (line, s'))"
  then have ne: "s \<noteq> []" by (auto simp: getline_def split: if_splits)
  show ?thesis
  proof (cases "CHR 0x0A \<in> set s")
    case True
    with a ne have s': "s' = tl (dropWhile (\<lambda>c. c \<noteq> CHR 0x0A) s)" by (simp add: getline_def)
    from True have "dropWhile (\<lambda>c. c \<noteq> CHR 0x0A) s \<noteq> []" by simp
    then have "length (tl (dropWhile (\<lambda>c. c \<noteq> CHR 0x0A) s))
        < length (dropWhile (\<lambda>c. c \<noteq> CHR 0x0A) s)"
      by simp
    also have "\<dots> \<le> length s" by (rule length_dropWhile_le)
    finally show ?thesis by (simp add: s')
  next
    case False
    with a ne show ?thesis by (auto simp: getline_def split: if_splits)
  qed
qed

lemma getline_exceptions: "getline True s \<noteq> Inr None"
  by (simp add: getline_def)

lemma csv_lines_throws: "snd (csv_lines True st s)"
proof (induction "length s" arbitrary: st s rule: less_induct)
  case less
  show ?case
  proof (cases "getline True s")
    case (Inl e)
    then show ?thesis by (subst csv_lines.simps) simp
  next
    case (Inr r)
    with getline_exceptions [of s] obtain line s' where r: "r = Some (line, s')"
      by (cases r) auto
    with Inr have "length s' < length s" by (auto dest: getline_shorter)
    then have "snd (csv_lines True (csv_line st line) s')" by (rule less)
    with Inr r show ?thesis by (subst csv_lines.simps) simp
  qed
qed

lemma length_write_bytes:
  "off + length bs \<le> length obj \<Longrightarrow> length (write_bytes off bs obj) = length obj"
  by (simp add: write_bytes_def)

lemma region_write_bytes_ahead:
  "off + length bs \<le> length obj \<Longrightarrow> a + n \<le> off \<Longrightarrow>
   take n (drop a (write_bytes off bs obj)) = take n (drop a obj)"
proof -
  assume fit: "off + length bs \<le> length obj" and ahead: "a + n \<le> off"
  have "drop a (write_bytes off bs obj)
      = drop a (take off obj) @ bs @ drop (off + length bs) obj"
    using fit ahead by (simp add: write_bytes_def)
  moreover have "n \<le> length (drop a (take off obj))" using fit ahead by simp
  ultimately have "take n (drop a (write_bytes off bs obj)) = take n (drop a (take off obj))"
    by simp
  also have "\<dots> = take n (take (off - a) (drop a obj))" by (simp only: drop_take)
  also have "\<dots> = take n (drop a obj)" using ahead by (simp add: min_def)
  finally show ?thesis .
qed

lemma region_write_bytes_same:
  "off + length bs \<le> length obj \<Longrightarrow> take (length bs) (drop off (write_bytes off bs obj)) = bs"
  by (simp add: write_bytes_def)

lemma name_loop_low:
  "name_loop k i obj s = Inr (obj', s') \<Longrightarrow> i + k \<le> a \<Longrightarrow>
   length obj' = length obj \<and> drop a obj' = drop a obj"
proof (induction k arbitrary: i obj s)
  case 0
  then show ?case by simp
next
  case (Suc k)
  from Suc.prems(1) obtain b t where s: "s = b # t" and i: "i < length obj"
    and r: "name_loop k (Suc i) (obj[i := b]) t = Inr (obj', s')"
    by (cases s) (auto split: if_splits)
  from Suc.prems(2) have "Suc i + k \<le> a" by simp
  from Suc.IH [OF r this] Suc.prems(2) show ?case by simp
qed

lemma name_loop_fits:
  "k \<le> length s \<Longrightarrow> i + k \<le> length obj \<Longrightarrow>
   name_loop k i obj s = Inr (write_bytes i (take k s) obj, drop k s)"
proof (induction k arbitrary: i obj s)
  case 0
  then show ?case by (simp add: write_bytes_def)
next
  case (Suc k)
  from Suc.prems(1) obtain b t where s: "s = b # t" by (cases s) auto
  from Suc.prems have i: "i < length obj" and kt: "k \<le> length t"
    and fit: "Suc i + k \<le> length (obj[i := b])" by (simp_all add: s)
  have "write_bytes (Suc i) (take k t) (obj[i := b]) = write_bytes i (b # take k t) obj"
    using i kt by (simp add: write_bytes_def upd_conv_take_nth_drop min_def add.commute)
  with Suc.IH [OF kt fit] i show ?case by (simp add: s)
qed

lemma read_gameVersion_bytes:
  assumes "read_gameVersion s = Inr (gv, sa)"
  shows "16 \<le> length s" and "sa = drop 16 s"
    and "gv = [field_u32 s 0, field_u32 s 4, field_u32 s 8, field_u32 s 12]"
  using assms
  by (auto simp: read_gameVersion_def readout_u32_def readout_def field_u32_def
      split: if_splits)

lemma field_u32_region:
  "k + 4 \<le> n \<Longrightarrow> take n (drop a obj) = take n xs \<Longrightarrow> field_u32 obj (a + k) = field_u32 xs k"
proof -
  assume k: "k + 4 \<le> n" and e: "take n (drop a obj) = take n xs"
  have "take 4 (drop (a + k) obj) = take 4 (drop k (take n (drop a obj)))"
    using k by (simp add: drop_take min_def add.commute)
  also have "\<dots> = take 4 (drop k (take n xs))" by (simp only: e)
  also have "\<dots> = take 4 (drop k xs)" using k by (simp add: drop_take min_def)
  finally show ?thesis by (simp add: field_u32_def)
qed

lemma HEADER_V2_version_region:
  assumes h: "HEADER_V2 s = Inr (h, s')"
    and nl: "readout_u32 (drop 16 s) = Inr (nameLen, sb)" and n: "unat nameLen < 64"
  shows "m_gameVersion h = [field_u32 s 0, field_u32 s 4, field_u32 s 8, field_u32 s 12]"
proof -
  define obj1 where "obj1 = write_bytes 64 (take 16 s) header_v2_object"
  from h have len: "16 \<le> length s"
    by (auto simp: HEADER_V2_def readin_bytes_def split: if_splits)
  have l1: "length obj1 = 88"
    using len by (simp add: obj1_def length_write_bytes header_v2_object_def)
  have r1: "take 16 (drop 64 obj1) = take 16 s"
    using len region_write_bytes_same [of 64 "take 16 s" header_v2_object]
    by (simp add: obj1_def header_v2_object_def)
  from h len nl obtain obj2 s3 ps ac where
    nm: "name_loop (unat nameLen) 0 obj1 sb = Inr (obj2, s3)"
    and hh: "h = header_of (write_bytes 84 ac (write_bytes 80 ps (obj2[unat nameLen := 0])))"
    and lp: "length ps = 4" and la: "length ac = 4"
    by (auto simp: HEADER_V2_def readin_bytes_def Let_def obj1_def
        split: if_splits sum.splits)
  from name_loop_low [OF nm, of 64] n have l2: "length obj2 = 88"
    and d2: "drop 64 obj2 = drop 64 obj1" by (simp_all add: l1)
  define obj3 where "obj3 = obj2[unat nameLen := 0]"
  have l3: "length obj3 = 88" by (simp add: obj3_def l2)
  have d3: "drop 64 obj3 = drop 64 obj1" using n by (simp add: obj3_def d2)
  define obj4 where "obj4 = write_bytes 80 ps obj3"
  have l4: "length obj4 = 88" by (simp add: obj4_def length_write_bytes l3 lp)
  have r4: "take 16 (drop 64 obj4) = take 16 (drop 64 obj3)"
    unfolding obj4_def by (rule region_write_bytes_ahead) (simp_all add: l3 lp)
  define obj5 where "obj5 = write_bytes 84 ac obj4"
  have r5: "take 16 (drop 64 obj5) = take 16 (drop 64 obj4)"
    unfolding obj5_def by (rule region_write_bytes_ahead) (simp_all add: l4 la)
  have reg: "take 16 (drop 64 obj5) = take 16 s" by (simp only: r5 r4 d3 r1)
  have "field_u32 obj5 (64 + 0) = field_u32 s 0" "field_u32 obj5 (64 + 4) = field_u32 s 4"
    "field_u32 obj5 (64 + 8) = field_u32 s 8" "field_u32 obj5 (64 + 12) = field_u32 s 12"
    by (rule field_u32_region [OF _ reg], simp)+
  then show ?thesis by (simp add: hh header_of_def obj5_def obj4_def obj3_def)
qed

lemma HEADER_V2_stamp:
  assumes "HEADER_V2 s = Inr (h, s')" and "read_gameVersion s = Inr (gv, sa)"
    and "readout_u32 sa = Inr (nameLen, sb)" and "unat nameLen < 64"
  shows "m_gameVersion h = gv"
  using HEADER_V2_version_region [of s h s' nameLen sb] read_gameVersion_bytes [OF assms(2)] assms
  by simp


lemma HEADER_V2_parts:
  assumes "length gv = 16" and "length lb = 4" and "le_nat lb = n" and "length nm = n"
    and "n < 88" and "length ps = 4" and "length ac = 4"
  shows "HEADER_V2 (gv @ lb @ nm @ ps @ ac @ r)
     = Inr (header_of (write_bytes 84 ac (write_bytes 80 ps
              ((write_bytes 0 nm (write_bytes 64 gv header_v2_object))[n := 0]))), r)"
proof -
  have u: "unat (word_of_nat n :: u32) = n" using assms(5) by (simp add: unat_of_nat)
  have l1: "length (write_bytes 64 gv header_v2_object) = 88"
    using assms(1) by (simp add: length_write_bytes header_v2_object_def)
  have nl: "name_loop n 0 (write_bytes 64 gv header_v2_object) (nm @ ps @ ac @ r)
      = Inr (write_bytes 0 nm (write_bytes 64 gv header_v2_object), ps @ ac @ r)"
    using name_loop_fits [of n "nm @ ps @ ac @ r" 0 "write_bytes 64 gv header_v2_object"]
      assms(4,5) l1 by simp
  have l2: "length (write_bytes 0 nm (write_bytes 64 gv header_v2_object)) = 88"
    using assms(4,5) l1 by (simp add: length_write_bytes)
  show ?thesis
    using assms u nl l2
    by (simp add: HEADER_V2_def readin_bytes_def readout_u32_def readout_def Let_def)
qed

lemma load_v2_file_65537: "load_v2 env0 v2_file_65537 = Inr []"
proof -
  have "HEADER_V2 v2_file_65537 = HEADER_V2 ([1,0,1,0, 0,0,0,0, 0,0,0,0, 0,0,0,0] @ [0,0,0,0]
      @ [] @ [8,0,0,0] @ [0,0,0,0] @ [])"
    by (simp add: v2_file_65537_def)
  also have "\<dots> = Inr (header_of (write_bytes 84 [0,0,0,0] (write_bytes 80 [8,0,0,0]
      ((write_bytes 0 [] (write_bytes 64 [1,0,1,0, 0,0,0,0, 0,0,0,0, 0,0,0,0]
         header_v2_object))[0 := 0]))), [])"
    by (rule HEADER_V2_parts) simp_all
  finally show ?thesis
    by (simp add: load_v2_def catch_system_error_def game_version_def env0_def
        validate_file_def g_blacklistMap_def unpack_file_def address_count_def sort_by_id_def
        header_of_def field_u32_def write_bytes_def header_v2_object_def
        list_update_append)
qed

lemma load_v2_file_long_name: "load_v2 env0 v2_file_long_name = Inr []"
proof -
  have "HEADER_V2 v2_file_long_name = HEADER_V2 ([9,0,0,0, 9,0,0,0, 9,0,0,0, 9,0,0,0]
      @ [80,0,0,0] @ (replicate 64 0 @ [1,0,0,0, 0,0,0,0, 0,0,0,0, 0,0,0,0])
      @ [8,0,0,0] @ [0,0,0,0] @ [])"
    by (simp add: v2_file_long_name_def)
  also have "\<dots> = Inr (header_of (write_bytes 84 [0,0,0,0] (write_bytes 80 [8,0,0,0]
      ((write_bytes 0 (replicate 64 0 @ [1,0,0,0, 0,0,0,0, 0,0,0,0, 0,0,0,0])
         (write_bytes 64 [9,0,0,0, 9,0,0,0, 9,0,0,0, 9,0,0,0] header_v2_object))[80 := 0]))), [])"
    by (rule HEADER_V2_parts) simp_all
  finally show ?thesis
    by (simp add: load_v2_def catch_system_error_def game_version_def env0_def
        validate_file_def g_blacklistMap_def unpack_file_def address_count_def sort_by_id_def
        header_of_def field_u32_def write_bytes_def header_v2_object_def
        list_update_append)
qed

lemma HEADER_V2_file_2:
  "HEADER_V2 v2_file_2 = Inr (header_of (write_bytes 84 [0,0,0,0] (write_bytes 80 [8,0,0,0]
      ((write_bytes 0 [] (write_bytes 64 [2,0,0,0, 0,0,0,0, 0,0,0,0, 0,0,0,0]
         header_v2_object))[0 := 0]))), [])"
proof -
  have "HEADER_V2 v2_file_2 = HEADER_V2 ([2,0,0,0, 0,0,0,0, 0,0,0,0, 0,0,0,0] @ [0,0,0,0]
      @ [] @ [8,0,0,0] @ [0,0,0,0] @ [])"
    by (simp add: v2_file_2_def)
  also have "\<dots> = Inr (header_of (write_bytes 84 [0,0,0,0] (write_bytes 80 [8,0,0,0]
      ((write_bytes 0 [] (write_bytes 64 [2,0,0,0, 0,0,0,0, 0,0,0,0, 0,0,0,0]
         header_v2_object))[0 := 0]))), [])"
    by (rule HEADER_V2_parts) simp_all
  finally show ?thesis .
qed

lemma stamps:
  "read_gameVersion v2_file_long_name = Inr ([9, 9, 9, 9], drop 16 v2_file_long_name)"
  "read_gameVersion v2_file_65537 = Inr ([65537, 0, 0, 0], drop 16 v2_file_65537)"
  "read_gameVersion v2_file_2 = Inr ([2, 0, 0, 0], [0,0,0,0,  8,0,0,0,  0,0,0,0])"
  by (simp_all add: read_gameVersion_def readout_u32_def readout_def v2_file_long_name_def
      v2_file_65537_def v2_file_2_def)

lemma load_v2_mismatch:
  "HEADER_V2 s = Inr (h, s') \<Longrightarrow> game_version (m_gameVersion h) \<noteq> version env \<Longrightarrow>
   load_v2 env s = Inl VersionMismatch"
  by (simp add: load_v2_def catch_system_error_def)

lemma load_v5_mismatch:
  "HEADER_V5 s = Inr (h, s') \<Longrightarrow> game_version (v5_gameVersion h) \<noteq> version env \<Longrightarrow>
   load_v5 env s = Inl VersionMismatch"
  by (simp add: load_v5_def catch_system_error_def)

lemma csv_read_throws: "snd (csv_read True s)"
proof (cases "getline True s")
  case (Inl e)
  then show ?thesis by (simp add: csv_read_def)
next
  case r1: (Inr r1)
  define s1 where "s1 = (case r1 of None \<Rightarrow> [] | Some (l, s) \<Rightarrow> s)"
  show ?thesis
  proof (cases "getline True s1")
    case (Inl e)
    with r1 show ?thesis by (simp add: csv_read_def Let_def flip: s1_def)
  next
    case (Inr r2)
    with r1 show ?thesis
      by (simp add: csv_read_def Let_def csv_lines_throws flip: s1_def)
  qed
qed

lemma load_csv_file_always_fails: "load_csv_file env contents = Inl FileNotOpenable"
  using csv_read_throws [of contents]
  by (cases "csv_read True contents") (simp add: load_csv_file_def load_csv_def)

lemma HEADER_V5_file_2:
  "HEADER_V5 v5_file_2
     = Inr (\<lparr>v5_gameVersion = [2, 0, 0, 0], v5_name = replicate 64 0, v5_pointerSize = 8,
              v5_dataFormat = 0, v5_offsetCount = 1\<rparr>, [0x10, 0, 0, 0])"
  by (simp add: HEADER_V5_def read_gameVersion_def v5_file_2_def)

lemma csv_duplicate_read:
  "csv_read exc csv_duplicate_file
     = (\<lparr>mappings = [\<lparr>id_of = 5, offset_of = 0\<rparr>], lineNumber = 4, validEntries = 1,
         invalidEntries = 0, duplicateEntries = 1, expectedEntries = 1,
         versionString = ''9.9.9.9''\<rparr>, exc)"
  by (simp add: csv_read_def csv_duplicate_file_def getline_def csv_lines.simps csv_line_def
      csv_metadata_def csv_begin_def trim_ws_def stoull_def isspace_c_def isdigit_c_def
      digit_val_def)

lemma csv_decimal_read:
  "csv_read exc csv_decimal_file
     = (\<lparr>mappings = [\<lparr>id_of = 5, offset_of = 32\<rparr>], lineNumber = 4, validEntries = 1,
         invalidEntries = 0, duplicateEntries = 1, expectedEntries = 1,
         versionString = ''9.9.9.9''\<rparr>, exc)"
  by (simp add: csv_read_def csv_decimal_file_def getline_def csv_lines.simps csv_line_def
      csv_metadata_def csv_begin_def trim_ws_def stoull_def isspace_c_def isdigit_c_def
      digit_val_def)

lemma HEADER_V5_stamp:
  assumes "HEADER_V5 s = Inr (h, s')" and "read_gameVersion s = Inr (gv, sa)"
  shows "v5_gameVersion h = gv"
  using assms by (auto simp: HEADER_V5_def split: if_splits sum.splits)

text \<open>
  C5, as the claim states it, fails. On the v2 path the constructor of the header stores
  the name without a bound, so a name of 64 bytes or more overwrites \<open>m_gameVersion\<close>
  before the comparison: a database stamped \<open>9.9.9.9\<close> whose name bytes 64 to 79 spell
  \<open>1.0.0.0\<close> loads under the live version \<open>1.0.0.0\<close>. The header's 32-bit version
  components are cast to 16 bits before the comparison: a database stamped
  \<open>65537.0.0.0\<close> loads under the live version \<open>1.0.0.0\<close>. On the CSV path the version
  label of the metadata line is read and never compared: the load of a file labelled
  \<open>9.9.9.9\<close> under the live version \<open>1.0.0.0\<close> does not end in \<open>VersionMismatch\<close>.
\<close>

theorem version_mismatch_not_fatal_counterexample:
  "version env0 = [1, 0, 0, 0]
   \<and> read_gameVersion v2_file_long_name = Inr ([9, 9, 9, 9], drop 16 v2_file_long_name)
   \<and> load_v2 env0 v2_file_long_name = Inr []
   \<and> read_gameVersion v2_file_65537 = Inr ([65537, 0, 0, 0], drop 16 v2_file_65537)
   \<and> load_v2 env0 v2_file_65537 = Inr []
   \<and> versionString (fst (csv_read True csv_duplicate_file)) = ''9.9.9.9''
   \<and> load_csv_file env0 csv_duplicate_file \<noteq> Inl VersionMismatch"
proof -
  have "load_csv_file env0 csv_duplicate_file \<noteq> Inl VersionMismatch"
    by (simp add: load_csv_file_def load_csv_def csv_duplicate_read)
  moreover have "version env0 = [1, 0, 0, 0]" by (simp add: env0_def)
  moreover have "versionString (fst (csv_read True csv_duplicate_file)) = ''9.9.9.9''"
    by (simp add: csv_duplicate_read)
  ultimately show ?thesis
    using load_v2_file_long_name load_v2_file_65537 stamps(1) stamps(2) by blast
qed

text \<open>
  C5, amended. On the load paths that read a binary version header, whenever the header
  is read and the version stamped in the file, each 32-bit component cast to 16 bits as
  \<open>game_version()\<close> does, differs from the live version, the load fails with
  \<open>VersionMismatch\<close> and gives no record store: on the v5 path always, and on the v1/v2
  path when the name length of the header is below 64, so that the name and its
  terminator stay inside \<open>m_name\<close>.
\<close>

theorem header_version_mismatch_is_fatal:
  "(HEADER_V2 s = Inr (hv, sv) \<and> read_gameVersion s = Inr (gv, sa)
      \<and> readout_u32 sa = Inr (nameLen, sb) \<and> unat nameLen < 64
      \<and> game_version gv \<noteq> version env
      \<longrightarrow> load_v2 env s = Inl VersionMismatch)
   \<and> (HEADER_V5 s = Inr (hw, sw) \<and> read_gameVersion s = Inr (gv, sa)
      \<and> game_version gv \<noteq> version env
      \<longrightarrow> load_v5 env s = Inl VersionMismatch)"
  using load_v2_mismatch [of s hv sv env] HEADER_V2_stamp [of s hv sv gv sa nameLen sb]
    load_v5_mismatch [of s hw sw env] HEADER_V5_stamp [of s hw sw gv sa]
  by auto

theorem header_version_mismatch_is_fatal_witness:
  "load_v2 env0 v2_file_2 = Inl VersionMismatch \<and> load_v5 env0 v5_file_2 = Inl VersionMismatch"
proof -
  have a: "game_version [2, 0, 0, 0] \<noteq> version env0"
    by (simp add: game_version_def env0_def)
  have n: "readout_u32 [0,0,0,0,  8,0,0,0,  0,0,0,0] = Inr (0, [8,0,0,0,  0,0,0,0])"
    by (simp add: readout_u32_def readout_def)
  have z: "unat (0 :: u32) < 64" by simp
  from header_version_mismatch_is_fatal [where s = v2_file_2 and env = env0 and sv = "[]"
      and gv = "[2, 0, 0, 0]" and sa = "[0,0,0,0,  8,0,0,0,  0,0,0,0]" and nameLen = 0
      and sb = "[8,0,0,0,  0,0,0,0]" and
      hv = "header_of (write_bytes 84 [0,0,0,0] (write_bytes 80 [8,0,0,0]
        ((write_bytes 0 [] (write_bytes 64 [2,0,0,0, 0,0,0,0, 0,0,0,0, 0,0,0,0]
           header_v2_object))[0 := 0])))"]
    HEADER_V2_file_2 stamps(3) n z a
  have v2: "load_v2 env0 v2_file_2 = Inl VersionMismatch" by blast
  have g5: "read_gameVersion v5_file_2 = Inr ([2, 0, 0, 0], drop 16 v5_file_2)"
    by (simp add: read_gameVersion_def readout_u32_def readout_def v5_file_2_def)
  from header_version_mismatch_is_fatal [where s = v5_file_2 and env = env0 and
      sw = "[0x10, 0, 0, 0]" and gv = "[2, 0, 0, 0]" and sa = "drop 16 v5_file_2" and
      hw = "\<lparr>v5_gameVersion = [2, 0, 0, 0], v5_name = replicate 64 0, v5_pointerSize = 8,
        v5_dataFormat = 0, v5_offsetCount = 1\<rparr>"]
    HEADER_V5_file_2 g5 a
  have v5: "load_v5 env0 v5_file_2 = Inl VersionMismatch" by blast
  from v2 v5 show ?thesis by simp
qed

text \<open>
  C7. For the data lines \<open>5,0x10\<close> and \<open>5,0x20\<close> the claim asks for the record of id 5 to
  hold \<open>0x20\<close>. \<open>std::stoull\<close> is called in base 10 and reads both offsets as 0, so the
  record holds 0 when the loop is left (the duplicate is counted); and the loop is left
  by the stream's exception at the end of the file, so \<open>load_csv\<close> as the constructor
  calls it ends in the failure to open the file. Without the exception mask the store
  would be the record \<open>(5, 0)\<close>.
\<close>

theorem csv_duplicate_hex_offset_read_as_zero:
  "mappings (fst (csv_read True csv_duplicate_file)) = [\<lparr>id_of = 5, offset_of = 0\<rparr>]
   \<and> duplicateEntries (fst (csv_read True csv_duplicate_file)) = 1
   \<and> load_csv_file env0 csv_duplicate_file = Inl FileNotOpenable
   \<and> load_csv env0 False csv_duplicate_file = Inr [\<lparr>id_of = 5, offset_of = 0\<rparr>]"
  by (simp add: csv_duplicate_read load_csv_file_def load_csv_def env0_def sort_by_id_def)

end
